theory Spec2Isabelle
  imports Complex_Main "HOL-Library.Multiset"
begin

section \<open>Errors as values\<close>

text \<open>
  Every exception the decoder can raise is a value of \<open>error\<close>; a computation that may
  raise returns \<open>error + 'a\<close> with \<open>Inl\<close> for the exception.
\<close>

datatype error = IndexError | KeyError | AttributeError | RuntimeError

definition rbind :: "error + 'a \<Rightarrow> ('a \<Rightarrow> error + 'b) \<Rightarrow> error + 'b" where
  "rbind m f = (case m of Inl e \<Rightarrow> Inl e | Inr x \<Rightarrow> f x)"

fun mapM :: "('a \<Rightarrow> error + 'b) \<Rightarrow> 'a list \<Rightarrow> error + 'b list" where
  "mapM f [] = Inr []"
| "mapM f (x # xs) = rbind (f x) (\<lambda>y. rbind (mapM f xs) (\<lambda>ys. Inr (y # ys)))"

section \<open>Tensor indexing\<close>

text \<open>
  \<open>xs[idxs]\<close> with a list or a LongTensor of indices: a fresh tensor holding
  \<open>xs[idxs[0]], xs[idxs[1]], ...\<close>; an index outside the axis raises.
\<close>

definition index_select :: "'a list \<Rightarrow> nat list \<Rightarrow> error + 'a list" where
  "index_select xs idxs =
     (if list_all (\<lambda>i. i < length xs) idxs then Inr (map (\<lambda>i. xs ! i) idxs)
      else Inl IndexError)"

text \<open>
  \<open>t[:, idxs]\<close>: a tensor is the list of its slices along the first (time) axis, each
  slice the list of its columns along the sample axis.
\<close>

definition gather_samples :: "'a list list \<Rightarrow> nat list \<Rightarrow> error + 'a list list" where
  "gather_samples t idxs = mapM (\<lambda>row. index_select row idxs) t"

section \<open>The context tiler\<close>

text \<open>
  A context is a dict from encoder name to a pair of a tensor \<open>[time, sample, feature]\<close>
  and an optional mask \<open>[time, sample]\<close>. The dict is kept as an association list in
  insertion order; \<open>'x\<close> is the feature vector of one (time, sample) cell.
\<close>

type_synonym 'x ctx_dict = "(string \<times> ('x list list \<times> bool list list option)) list"

definition tile_mask :: "bool list list option \<Rightarrow> nat list \<Rightarrow> error + bool list list option" where
  "tile_mask msk idxs =
     (case msk of None \<Rightarrow> Inr None
      | Some m \<Rightarrow> rbind (gather_samples m idxs) (\<lambda>m'. Inr (Some m')))"

definition tile_ctx_dict :: "'x ctx_dict \<Rightarrow> nat list \<Rightarrow> error + 'x ctx_dict" where
  "tile_ctx_dict ctx_dict idxs =
     mapM (\<lambda>(k, (t, msk)).
             rbind (gather_samples t idxs) (\<lambda>t'.
             rbind (tile_mask msk idxs) (\<lambda>msk'.
             Inr (k, (t', msk')))))
          ctx_dict"

section \<open>Collaborators\<close>

text \<open>
  Modelled from the spec: the Vocabulary class is not part of the sources. It maps
  tokens to integer ids, exposes the ids of the special tokens and its size, and decodes
  a sequence of ids to surface text, stopping at the end token.
\<close>

record vocabulary =
  pad :: nat
  bos :: nat
  eos :: nat
  unk :: nat
  n_vocab :: nat
  word_of :: "nat \<Rightarrow> string"

fun join_words :: "string list \<Rightarrow> string" where
  "join_words [] = []"
| "join_words [w] = w"
| "join_words (w # ws) = w @ '' '' @ join_words ws"

definition idxs_to_sent :: "vocabulary \<Rightarrow> nat list \<Rightarrow> string" where
  "idxs_to_sent vocab idxs =
     join_words (map (word_of vocab) (takeWhile (\<lambda>i. i \<noteq> eos vocab) idxs))"

definition list_of_idxs_to_sents :: "vocabulary \<Rightarrow> nat list list \<Rightarrow> string list" where
  "list_of_idxs_to_sents vocab hyps = map (idxs_to_sent vocab) hyps"

text \<open>
  A decoder: \<open>f_init\<close> gives one state row per sample, \<open>emb\<close> embeds the current
  tokens, \<open>f_next\<close> returns the log-probabilities (one row per current slot, one column
  per vocabulary id) and the next state rows. \<open>'h\<close> is one state row.
\<close>

record ('x, 'h, 'e) decoder =
  f_init :: "'x ctx_dict \<Rightarrow> 'h list"
  f_next :: "'x ctx_dict \<Rightarrow> 'e \<Rightarrow> 'h list \<Rightarrow> real list list \<times> 'h list"
  emb :: "nat list \<Rightarrow> 'e"

record 'b batch =
  size_b :: nat
  content :: 'b

record ('b, 'x, 'h, 'e) model =
  dec :: "('x, 'h, 'e) decoder"
  get_decoder :: "string \<Rightarrow> ('x, 'h, 'e) decoder"
  trg_vocab :: vocabulary
  vocabs :: "string \<Rightarrow> vocabulary option"
  encode :: "'b batch \<Rightarrow> string list option \<Rightarrow> 'x ctx_dict"
  get_bos :: "nat \<Rightarrow> nat list"

record topology =
  srcs :: "string list"
  first_trg :: string

text \<open>
  The data loader: the batch size of its sampler, the batches it yields, and the
  sampler's \<open>store_indices\<close> (False when the attribute is absent) and \<open>orig_idxs\<close>.
\<close>

record 'b data_loader =
  batch_size :: nat
  batches :: "'b batch list"
  store_indices :: bool
  orig_idxs :: "nat list"

section \<open>One decoding step\<close>

text \<open>The large-negative constant \<open>inf = -1000\<close> of \<open>beam_search\<close>.\<close>

definition inf_const :: real where
  "inf_const = - 1000"

text \<open>
  The state of the step loop of one batch. \<open>nll_is_view\<close> records the aliasing of
  \<open>nll\<close>: it is True while \<open>nll\<close> is still the narrowed view of \<open>nll_storage\<close>, and
  False once \<open>nll\<close> has been rebound to the fresh output of \<open>topk\<close>.
\<close>

record ('x, 'h) loop_state =
  ctx_dicts :: "'x ctx_dict list"
  h_ts :: "'h list list"
  idxs :: "nat list"
  tile :: "nat list"
  nll :: "real list list"
  nll_is_view :: bool
  beam :: "nat list list list"

text \<open>
  Lines 117-119: every decoder is called on its tiled context, the embedding of the
  current tokens and its state rows gathered by \<open>tile\<close>.
\<close>

definition call_f_nexts ::
  "('x, 'h, 'e) decoder list \<Rightarrow> 'x ctx_dict list \<Rightarrow> 'h list list \<Rightarrow> nat list \<Rightarrow> nat list
     \<Rightarrow> error + (real list list \<times> 'h list) list" where
  "call_f_nexts ds cds hs y_t til =
     mapM (\<lambda>(d, cd, h_t). rbind (index_select h_t til) (\<lambda>h. Inr (f_next d cd (emb d y_t) h)))
          (zip ds (zip cds hs))"

text \<open>
  Line 122, \<open>sum(log_ps).data\<close>. The decoders' contract is one row per current slot and
  one column per vocabulary id; an output of another shape makes the tensor arithmetic
  of lines 122-144 fail and is reported as a RuntimeError. The sum of no tensor is the
  integer 0, which has no \<open>data\<close>.
\<close>

definition well_shaped :: "nat \<Rightarrow> nat \<Rightarrow> real list list \<Rightarrow> bool" where
  "well_shaped rows V lp = (length lp = rows \<and> list_all (\<lambda>r. length r = V) lp)"

definition add_tensors :: "real list list \<Rightarrow> real list list \<Rightarrow> real list list" where
  "add_tensors a b = map2 (map2 (+)) a b"

definition sum_log_ps :: "nat \<Rightarrow> nat \<Rightarrow> real list list list \<Rightarrow> error + real list list" where
  "sum_log_ps rows V log_ps =
     (case log_ps of [] \<Rightarrow> Inl AttributeError
      | x # xs \<Rightarrow>
          if list_all (well_shaped rows V) log_ps then Inr (foldl add_tensors x xs)
          else Inl RuntimeError)"

text \<open>Lines 123-124: \<open>log_p[:, unk] = inf\<close>.\<close>

definition suppress :: "nat \<Rightarrow> real list list \<Rightarrow> error + real list list" where
  "suppress u log_p =
     (if list_all (\<lambda>r. u < length r) log_p then Inr (map (\<lambda>r. r[u := inf_const]) log_p)
      else Inl IndexError)"

text \<open>Line 127: the positions of the current tokens equal to 2.\<close>

definition nonzero_eos :: "nat list \<Rightarrow> nat list" where
  "nonzero_eos ys = filter (\<lambda>i. ys ! i = 2) [0..<length ys]"

text \<open>
  Line 133, \<open>log_p.index_fill_(0, idxs, inf)\<close>: the rows at the given positions are
  filled with the value.
\<close>

definition index_fill_rows :: "real list list \<Rightarrow> nat list \<Rightarrow> real \<Rightarrow> error + real list list" where
  "index_fill_rows log_p pos v =
     (if list_all (\<lambda>p. p < length log_p) pos
      then Inr (map (\<lambda>(i, r). if i \<in> set pos then map (\<lambda>_. v) r else r)
                    (zip [0..<length log_p] log_p))
      else Inl IndexError)"

text \<open>
  Line 135, \<open>log_p.view(-1).index_fill_(0, idxs * n_vocab + 2, 0)\<close>: the fill is on the
  flattened tensor, so the cell \<open>(i, j)\<close> of a tensor with \<open>V\<close> columns is written when
  \<open>i * V + j\<close> is one of the flat positions.
\<close>

definition index_fill_flat :: "nat \<Rightarrow> real list list \<Rightarrow> nat list \<Rightarrow> real \<Rightarrow> error + real list list" where
  "index_fill_flat V log_p fs v =
     (if list_all (\<lambda>f. f < length log_p * V) fs
      then Inr (map (\<lambda>(i, r). map (\<lambda>(j, x). if i * V + j \<in> set fs then v else x)
                                   (zip [0..<length r] r))
                    (zip [0..<length log_p] log_p))
      else Inl IndexError)"

definition pin_eos :: "nat \<Rightarrow> nat list \<Rightarrow> real list list \<Rightarrow> error + real list list" where
  "pin_eos V pos log_p =
     rbind (index_fill_rows log_p pos inf_const) (\<lambda>log_p1.
     index_fill_flat V log_p1 (map (\<lambda>p. p * V + 2) pos) 0)"

text \<open>
  Lines 142-143, \<open>nll.unsqueeze_(2).add(log_p.view(batch.size, -1, n_vocab)).view(batch.size, -1)\<close>:
  row \<open>b\<close> of the result lists, for every slot \<open>j\<close> of sample \<open>b\<close> and every vocabulary
  id \<open>v\<close>, the running score of the slot plus the log-probability of \<open>v\<close>.
\<close>

definition cross_sum :: "nat \<Rightarrow> real list list \<Rightarrow> real list list \<Rightarrow> error + real list list" where
  "cross_sum B nl log_p =
     (if length nl = B \<and> list_all (\<lambda>r. length log_p = B * length r) nl
      then Inr (map (\<lambda>b. concat (map (\<lambda>j. map (\<lambda>p. nl ! b ! j + p)
                                              (log_p ! (b * length (nl ! b) + j)))
                                      [0..<length (nl ! b)]))
                    [0..<B])
      else Inl RuntimeError)"

text \<open>
  \<open>topk(k, sorted=False, largest=True)\<close> on one row, lines 142-144 and 169, is a
  parameter of the step and of the final selection: a function from \<open>k\<close> and the row
  to the selected values with their positions. \<open>is_topk\<close> is what torch guarantees
  of it: \<open>k\<close> entries of the row at \<open>k\<close> different positions, and no entry left out is
  larger than a selected one. The order of the result and the choice among equal
  values are open. A \<open>k\<close> above the length of the row is refused.
\<close>

type_synonym topk_fn = "nat \<Rightarrow> real list \<Rightarrow> error + (real \<times> nat) list"

definition is_topk :: "topk_fn \<Rightarrow> bool" where
  "is_topk tk =
     (\<forall>k xs. if k \<le> length xs
             then (\<exists>r. tk k xs = Inr r \<and> length r = k \<and> distinct (map snd r) \<and>
                       (\<forall>p \<in> set r. snd p < length xs \<and> fst p = xs ! snd p) \<and>
                       (\<forall>i < length xs. i \<notin> snd ` set r \<longrightarrow> (\<forall>p \<in> set r. xs ! i \<le> fst p)))
             else tk k xs = Inl RuntimeError)"

text \<open>
  One such function, with which the examples are run: the \<open>k\<close> largest values in
  descending order, the lower position first among equal values.
\<close>

definition topk :: topk_fn where
  "topk k xs =
     (if k \<le> length xs
      then Inr (take k (sort_key (\<lambda>(v, i). - v) (zip xs [0..<length xs])))
      else Inl RuntimeError)"

text \<open>
  Lines 142-157 after the selection: \<open>flat\<close> are the flattened positions that \<open>topk\<close>
  returned for every sample. They are stored in \<open>beam[t]\<close>, split into the previous
  slot \<open>pdxs\<close> and the token, and the history \<open>beam[:t]\<close> is permuted.
\<close>

definition gather_history :: "nat list list \<Rightarrow> nat list list list \<Rightarrow> error + nat list list list" where
  "gather_history pdxs hist =
     mapM (\<lambda>row. mapM (\<lambda>(r, p). index_select r p) (zip row pdxs)) hist"

definition new_tile :: "nat \<Rightarrow> nat \<Rightarrow> nat \<Rightarrow> nat list list \<Rightarrow> nat list" where
  "new_tile k B t pdxs =
     map2 (+) (concat pdxs) (map (\<lambda>m. (m div k) * (if t \<noteq> 0 then k else 1)) [0..<B * k])"

definition record_topk ::
  "nat \<Rightarrow> nat \<Rightarrow> nat \<Rightarrow> nat \<Rightarrow> nat list list \<Rightarrow> nat list list list
     \<Rightarrow> error + (nat list list list \<times> nat list \<times> nat list)" where
  "record_topk V k B t flat bm =
     (if t < length bm then
        let pdxs = map (map (\<lambda>f. f div V)) flat;
            bm1 = bm[t := map (map (\<lambda>f. f mod V)) flat];
            ys = concat (bm1 ! t);
            til = new_tile k B t pdxs
        in if t > 0
           then rbind (gather_history pdxs (take t bm1)) (\<lambda>hist. Inr (hist @ drop t bm1, ys, til))
           else Inr (bm1, ys, til)
      else Inl IndexError)"

text \<open>
  Lines 107-124: the contexts are tiled, the decoders are called and their
  log-probabilities are summed; the result is the tiled contexts, the next states and
  \<open>log_p\<close>.
\<close>

definition predict ::
  "('x, 'h, 'e) decoder list \<Rightarrow> nat \<Rightarrow> nat \<Rightarrow> bool \<Rightarrow> ('x, 'h) loop_state
     \<Rightarrow> error + ('x ctx_dict list \<times> 'h list list \<times> real list list)" where
  "predict ds V u supp s =
     rbind (mapM (\<lambda>cd. tile_ctx_dict cd (tile s)) (ctx_dicts s)) (\<lambda>cds.
     rbind (call_f_nexts ds cds (h_ts s) (idxs s) (tile s)) (\<lambda>outs.
     rbind (sum_log_ps (length (idxs s)) V (map fst outs)) (\<lambda>log_p0.
     rbind (if supp then suppress u log_p0 else Inr log_p0) (\<lambda>log_p1.
     Inr (cds, map snd outs, log_p1)))))"

text \<open>
  Lines 131-144: the rows of the finished slots are pinned, the running scores are
  added and the \<open>k\<close> best candidates of every sample are selected by the top-k \<open>tk\<close>.
\<close>

definition select_topk ::
  "topk_fn \<Rightarrow> nat \<Rightarrow> nat \<Rightarrow> nat \<Rightarrow> nat list \<Rightarrow> real list list \<Rightarrow> real list list
     \<Rightarrow> error + (real \<times> nat) list list" where
  "select_topk tk V k B pos nl log_p1 =
     rbind (if pos \<noteq> [] then pin_eos V pos log_p1 else Inr log_p1) (\<lambda>log_p.
     rbind (cross_sum B nl log_p) (\<lambda>scores.
     mapM (tk k) scores))"

text \<open>
  The body of the step loop, lines 107-157. The result is paired with True when the
  step left the loop by \<open>break\<close>. \<open>early\<close> is True in \<open>beam_search\<close>; with False the
  \<open>break\<close> of line 130 is not taken, which gives the loop that runs all \<open>max_len\<close> steps.
\<close>

definition step ::
  "topk_fn \<Rightarrow> ('x, 'h, 'e) decoder list \<Rightarrow> nat \<Rightarrow> nat \<Rightarrow> nat \<Rightarrow> bool \<Rightarrow> bool \<Rightarrow> nat \<Rightarrow> nat
     \<Rightarrow> ('x, 'h) loop_state \<Rightarrow> error + (bool \<times> ('x, 'h) loop_state)" where
  "step tk ds V u k supp early B t s =
     rbind (predict ds V u supp s) (\<lambda>(cds, hs, log_p1).
     let pos = nonzero_eos (idxs s);
         s1 = s\<lparr>ctx_dicts := cds, h_ts := hs\<rparr>
     in if pos \<noteq> [] \<and> early \<and> length pos = B * k then Inr (True, s1\<lparr>idxs := pos\<rparr>)
        else
          rbind (select_topk tk V k B pos (nll s) log_p1) (\<lambda>sel.
          rbind (record_topk V k B t (map (map snd) sel) (beam s)) (\<lambda>(bm, ys, til).
          Inr (False, s1\<lparr>idxs := ys, tile := til, nll := map (map fst) sel,
                          nll_is_view := False, beam := bm\<rparr>))))"

text \<open>\<open>for t in range(max_len)\<close>, over the list of the step numbers.\<close>

fun step_loop ::
  "topk_fn \<Rightarrow> ('x, 'h, 'e) decoder list \<Rightarrow> nat \<Rightarrow> nat \<Rightarrow> nat \<Rightarrow> bool \<Rightarrow> bool \<Rightarrow> nat \<Rightarrow> nat list
     \<Rightarrow> ('x, 'h) loop_state \<Rightarrow> error + ('x, 'h) loop_state" where
  "step_loop tk ds V u k supp early B [] s = Inr s"
| "step_loop tk ds V u k supp early B (t # ts) s =
     rbind (step tk ds V u k supp early B t s)
       (\<lambda>(brk, s'). if brk then Inr s' else step_loop tk ds V u k supp early B ts s')"

section \<open>Decoding one batch\<close>

text \<open>
  The storage allocated once per call, lines 76-78, and reused by every batch:
  \<open>beam_storage\<close> is \<open>[max_len, max_batch_size, k]\<close>, \<open>nll_storage\<close> is
  \<open>[max_batch_size]\<close>.
\<close>

record storage =
  beam_storage :: "nat list list list"
  nll_storage :: "real list"

text \<open>
  Line 85, \<open>beam_storage.narrow(1, 0, batch.size).zero_()\<close>: the cells of the first
  \<open>B\<close> samples are zeroed in the storage, and \<open>beam\<close> is the view on them.
\<close>

definition zero_view :: "nat \<Rightarrow> nat list list list \<Rightarrow> nat list list list" where
  "zero_view B st = map (\<lambda>row. map (map (\<lambda>_. 0)) (take B row) @ drop B row) st"

definition narrow_view :: "nat \<Rightarrow> 'a list list \<Rightarrow> 'a list list" where
  "narrow_view B st = map (take B) st"

text \<open>What the storage holds after the view on its first \<open>B\<close> samples was written.\<close>

definition write_view :: "nat \<Rightarrow> 'a list list \<Rightarrow> 'a list list \<Rightarrow> 'a list list" where
  "write_view B view st = map2 (\<lambda>v row. v @ drop B row) view st"

text \<open>Lines 85-104: the state with which the step loop of a batch starts.\<close>

definition init_state ::
  "('b, 'x, 'h, 'e) model list \<Rightarrow> ('x, 'h, 'e) decoder list \<Rightarrow> string list option \<Rightarrow> nat
     \<Rightarrow> storage \<Rightarrow> 'b batch \<Rightarrow> ('x, 'h) loop_state" where
  "init_state models ds enc_args B sto batch =
     (let cds = map (\<lambda>m. encode m batch enc_args) models in
      \<lparr>ctx_dicts = cds,
       h_ts = map (\<lambda>(d, cd). f_init d cd) (zip ds cds),
       idxs = get_bos (hd models) B,
       tile = [0..<B],
       nll = map (\<lambda>x. [x]) (take B (nll_storage sto)),
       nll_is_view = True,
       beam = narrow_view B (zero_view B (beam_storage sto))\<rparr>)"

text \<open>Line 160, \<open>beam[max_len - 1] = eos\<close>; with \<open>max_len = 0\<close> there is no row \<open>-1\<close>.\<close>

definition put_eos :: "nat \<Rightarrow> nat \<Rightarrow> nat list list list \<Rightarrow> error + nat list list list" where
  "put_eos max_len e bm =
     (if 0 < max_len \<and> max_len \<le> length bm
      then Inr (bm[max_len - 1 := map (map (\<lambda>_. e)) (bm ! (max_len - 1))])
      else Inl IndexError)"

text \<open>Line 163, \<open>beam.gt(2).float().sum(0).clamp(min=1)\<close>.\<close>

definition lengths :: "nat \<Rightarrow> nat \<Rightarrow> nat list list list \<Rightarrow> real list list" where
  "lengths B k bm =
     map (\<lambda>b. map (\<lambda>j. max 1 (real (length (filter (\<lambda>row. row ! b ! j > 2) bm)))) [0..<k])
         [0..<B]"

text \<open>Lines 165-166.\<close>

definition length_penalty :: "real \<Rightarrow> real \<Rightarrow> real" where
  "length_penalty lp_alpha lp =
     (if lp_alpha > 0 then ((5 + lp) powr lp_alpha) / (6 powr lp_alpha) else lp)"

text \<open>Lines 163-166: the divisor \<open>lp\<close> of every slot.\<close>

definition normalizer :: "real \<Rightarrow> nat \<Rightarrow> nat \<Rightarrow> nat list list list \<Rightarrow> real list list" where
  "normalizer lp_alpha B k bm = map (map (length_penalty lp_alpha)) (lengths B k bm)"

text \<open>
  Line 169, \<open>nll.div_(lp)\<close>: the division in place needs \<open>lp\<close> in the shape of \<open>nll\<close>.
\<close>

definition div_nll :: "real list list \<Rightarrow> real list list \<Rightarrow> error + real list list" where
  "div_nll nl lp =
     (if map length nl = map length lp then Inr (map2 (map2 (/)) nl lp)
      else Inl RuntimeError)"

text \<open>Line 173, \<open>beam[:, range(batch.size), top_hyps].t()\<close>.\<close>

definition select_hyps :: "nat \<Rightarrow> nat list list list \<Rightarrow> nat list \<Rightarrow> error + nat list list" where
  "select_hyps B bm top_hyps =
     (if length top_hyps = B
      then mapM (\<lambda>b. mapM (\<lambda>row. if b < length row \<and> top_hyps ! b < length (row ! b)
                                    then Inr (row ! b ! (top_hyps ! b)) else Inl IndexError) bm)
                [0..<B]
      else Inl IndexError)"

text \<open>
  Lines 159-174. The storage that the batch leaves behind holds the view \<open>beam\<close>; it
  holds the divided scores too when \<open>nll\<close> was still the view of \<open>nll_storage\<close>.
\<close>

definition finish ::
  "topk_fn \<Rightarrow> vocabulary \<Rightarrow> nat \<Rightarrow> real \<Rightarrow> nat \<Rightarrow> nat \<Rightarrow> storage \<Rightarrow> ('x, 'h) loop_state
     \<Rightarrow> error + (storage \<times> string list)" where
  "finish tk vocab max_len lp_alpha k B sto s =
     rbind (put_eos max_len (eos vocab) (beam s)) (\<lambda>bm.
     rbind (div_nll (nll s) (normalizer lp_alpha B k bm)) (\<lambda>nl.
     rbind (mapM (tk 1) nl) (\<lambda>sel.
     let top_hyps = map (\<lambda>r. snd (hd r)) sel in
     rbind (select_hyps B bm top_hyps) (\<lambda>hyps.
     Inr (\<lparr>beam_storage = write_view B bm (beam_storage sto),
           nll_storage = (if nll_is_view s then map hd nl @ drop B (nll_storage sto)
                          else nll_storage sto)\<rparr>,
          list_of_idxs_to_sents vocab hyps)))))"

text \<open>The body of the loop over the batches, lines 80-174.\<close>

definition decode_batch ::
  "topk_fn \<Rightarrow> ('b, 'x, 'h, 'e) model list \<Rightarrow> ('x, 'h, 'e) decoder list \<Rightarrow> vocabulary \<Rightarrow> string list option
     \<Rightarrow> nat \<Rightarrow> nat \<Rightarrow> nat \<Rightarrow> real \<Rightarrow> bool \<Rightarrow> bool \<Rightarrow> storage \<Rightarrow> 'b batch
     \<Rightarrow> error + (storage \<times> string list)" where
  "decode_batch tk models ds vocab enc_args max_batch_size k max_len lp_alpha supp early sto batch =
     (let B = size_b batch in
      if B > max_batch_size then Inl RuntimeError
      else
        rbind (step_loop tk ds (n_vocab vocab) (unk vocab) k supp early B [0..<max_len]
                 (init_state models ds enc_args B sto batch)) (\<lambda>s.
        finish tk vocab max_len lp_alpha k B
          (sto\<lparr>beam_storage := zero_view B (beam_storage sto)\<rparr>) s))"

fun decode_batches ::
  "(storage \<Rightarrow> 'b batch \<Rightarrow> error + (storage \<times> string list)) \<Rightarrow> storage \<Rightarrow> 'b batch list
     \<Rightarrow> string list \<Rightarrow> error + string list" where
  "decode_batches f sto [] results = Inr results"
| "decode_batches f sto (b # bs) results =
     rbind (f sto b) (\<lambda>(sto', sents). decode_batches f sto' bs (results @ sents))"

section \<open>The whole search\<close>

text \<open>
  Lines 50-73: the decoders, the vocabulary and the encoder arguments. The vocabulary
  is the one of the first model.
\<close>

definition resolve ::
  "(string \<Rightarrow> topology) \<Rightarrow> ('b, 'x, 'h, 'e) model list \<Rightarrow> string option
     \<Rightarrow> error + (('x, 'h, 'e) decoder list \<times> vocabulary \<times> string list option)" where
  "resolve Topology models task_id =
     (case task_id of
        None \<Rightarrow>
          (case models of [] \<Rightarrow> Inl IndexError
           | m # _ \<Rightarrow> Inr (map dec models, trg_vocab m, None))
      | Some tid \<Rightarrow>
          (let task = Topology tid in
           case models of [] \<Rightarrow> Inl IndexError
           | m # _ \<Rightarrow>
               (case vocabs m (first_trg task) of None \<Rightarrow> Inl KeyError
                | Some v \<Rightarrow>
                    Inr (map (\<lambda>m. get_decoder m (first_trg task)) models, v, Some (srcs task)))))"

text \<open>Lines 76-78; torch refuses a negative dimension.\<close>

definition alloc :: "int \<Rightarrow> nat \<Rightarrow> int \<Rightarrow> error + storage" where
  "alloc max_len max_batch_size k =
     (if max_len < 0 \<or> k < 0 then Inl RuntimeError
      else Inr \<lparr>beam_storage = replicate (nat max_len) (replicate max_batch_size (replicate (nat k) 0)),
                nll_storage = replicate max_batch_size 0\<rparr>)"

text \<open>Lines 177-179, the comprehension over the sorted pairs.\<close>

definition recover_order :: "'a list \<Rightarrow> nat list \<Rightarrow> error + 'a list" where
  "recover_order results orig =
     mapM (\<lambda>(i, j). if i < length results then Inr (results ! i) else Inl IndexError)
          (sort_key snd (enumerate 0 orig))"

text \<open>Lines 42-174: the results of all batches, in the order of decoding.\<close>

definition collect_results ::
  "topk_fn \<Rightarrow> (string \<Rightarrow> topology) \<Rightarrow> ('b, 'x, 'h, 'e) model list \<Rightarrow> 'b data_loader \<Rightarrow> string option
     \<Rightarrow> int \<Rightarrow> int \<Rightarrow> real \<Rightarrow> bool \<Rightarrow> error + string list" where
  "collect_results tk Topology models data_loader task_id beam_size max_len lp_alpha suppress_unk =
     rbind (resolve Topology models task_id) (\<lambda>(ds, vocab, enc_args).
     rbind (alloc max_len (batch_size data_loader) beam_size) (\<lambda>sto.
     decode_batches
       (decode_batch tk models ds vocab enc_args (batch_size data_loader)
          (nat beam_size) (nat max_len) lp_alpha suppress_unk True)
       sto (batches data_loader) []))"

definition beam_search ::
  "topk_fn \<Rightarrow> (string \<Rightarrow> topology) \<Rightarrow> ('b, 'x, 'h, 'e) model list \<Rightarrow> 'b data_loader \<Rightarrow> string option
     \<Rightarrow> int \<Rightarrow> int \<Rightarrow> real \<Rightarrow> bool \<Rightarrow> error + string list" where
  "beam_search tk Topology models data_loader task_id beam_size max_len lp_alpha suppress_unk =
     rbind (collect_results tk Topology models data_loader task_id beam_size max_len lp_alpha
              suppress_unk) (\<lambda>results.
     if store_indices data_loader then recover_order results (orig_idxs data_loader)
     else Inr results)"

section \<open>Example collaborators\<close>

text \<open>
  The vocabulary of the end-to-end scenario:
  \<open>{pad: 0, bos: 1, eos: 2, unk: 3, a: 4, b: 5}\<close>.
\<close>

definition word6 :: "nat \<Rightarrow> string" where
  "word6 i = (if i = 0 then ''<pad>'' else if i = 1 then ''<bos>'' else if i = 2 then ''<eos>''
              else if i = 3 then ''<unk>'' else if i = 4 then ''a'' else ''b'')"

definition vocab6 :: vocabulary where
  "vocab6 = \<lparr>pad = 0, bos = 1, eos = 2, unk = 3, n_vocab = 6, word_of = word6\<rparr>"

section \<open>Shapes\<close>

text \<open>
  Every index of the sequence addresses a sample of every tensor and mask of the
  context.
\<close>

definition in_range :: "'x ctx_dict \<Rightarrow> nat list \<Rightarrow> bool" where
  "in_range ctx_dict is =
     (\<forall>(key, (t, msk)) \<in> set ctx_dict.
        (\<forall>row \<in> set t. \<forall>i \<in> set is. i < length row) \<and>
        (\<forall>m. msk = Some m \<longrightarrow> (\<forall>row \<in> set m. \<forall>i \<in> set is. i < length row)))"

text \<open>
  The history permuted by the previous slots: cell \<open>(t', b, j)\<close> holds what cell
  \<open>(t', b, pdxs[b][j])\<close> held.
\<close>

definition gathered :: "nat list list \<Rightarrow> nat list list list \<Rightarrow> nat list list list" where
  "gathered pdxs hist = map (\<lambda>row. map (\<lambda>(r, p). map (\<lambda>a. r ! a) p) (zip row pdxs)) hist"

text \<open>
  The beam tensor is \<open>[_, B, k]\<close>; the selection of \<open>topk\<close> is \<open>[B, k]\<close> with
  positions in a row of \<open>k * V\<close> scores.
\<close>

definition beam_shape :: "nat \<Rightarrow> nat \<Rightarrow> nat list list list \<Rightarrow> bool" where
  "beam_shape B k bm = (\<forall>row \<in> set bm. length row = B \<and> (\<forall>r \<in> set row. length r = k))"

definition flat_shape :: "nat \<Rightarrow> nat \<Rightarrow> nat \<Rightarrow> nat list list \<Rightarrow> bool" where
  "flat_shape B k V flat = (length flat = B \<and> (\<forall>r \<in> set flat. length r = k \<and> (\<forall>f \<in> set r. f < k * V)))"


text \<open>
  A decoder given by a table: a state row is the source id of the sample followed by the
  tokens fed so far, and the log-probabilities of the next token are looked up under
  that history.
\<close>

definition toy_f_init :: "nat ctx_dict \<Rightarrow> nat list list" where
  "toy_f_init cd = (case cd of (key, (row # rows, msk)) # rest \<Rightarrow> map (\<lambda>x. [x]) row | _ \<Rightarrow> [])"

definition toy_f_next :: "(nat list \<Rightarrow> real list) \<Rightarrow> nat ctx_dict \<Rightarrow> nat list \<Rightarrow> nat list list
    \<Rightarrow> real list list \<times> nat list list" where
  "toy_f_next table cd e h =
     (map (\<lambda>(tok, hist). table (hist @ [tok])) (zip e h), map (\<lambda>(tok, hist). hist @ [tok]) (zip e h))"

definition toy_dec :: "(nat list \<Rightarrow> real list) \<Rightarrow> (nat, nat list, nat list) decoder" where
  "toy_dec table = \<lparr>f_init = toy_f_init, f_next = toy_f_next table, emb = (\<lambda>ys. ys)\<rparr>"

definition toy_model :: "vocabulary \<Rightarrow> (nat list \<Rightarrow> real list) \<Rightarrow> (nat list, nat, nat list, nat list) model" where
  "toy_model v table = \<lparr>dec = toy_dec table, get_decoder = (\<lambda>_. toy_dec table), trg_vocab = v,
      vocabs = (\<lambda>_. Some v),
      encode = (\<lambda>b _. [(''src'', ([content b], None))]),
      get_bos = (\<lambda>n. replicate n 1)\<rparr>"

definition no_topology :: "string \<Rightarrow> topology" where
  "no_topology task = \<lparr>srcs = [], first_trg = task\<rparr>"

text \<open>
  Source 0 is decoded to \<open>a b\<close>, source 1 to \<open>b\<close>, source 2 to \<open>a\<close>. The loader
  yields source 2 first and reports the original positions.
\<close>

definition table_ab :: "nat list \<Rightarrow> real list" where
  "table_ab h = (if h = [0, 1] then [-50, -50, -50, -50, -1, -3]
                 else if h = [1, 1] then [-50, -50, -50, -50, -3, -1]
                 else if h = [2, 1] then [-50, -50, -50, -50, -1, -4]
                 else if h = [0, 1, 4] then [-50, -50, -9, -50, -8, -1]
                 else [-50, -50, -1, -50, -7, -8])"

definition loader_ab :: "nat list data_loader" where
  "loader_ab = \<lparr>batch_size = 2,
                 batches = [\<lparr>size_b = 1, content = [2]\<rparr>, \<lparr>size_b = 2, content = [0, 1]\<rparr>],
                 store_indices = True, orig_idxs = [2, 0, 1]\<rparr>"

text \<open>
  The storage between two batches: the shape in which it was allocated, and zero
  scores.
\<close>

definition storage_ok :: "nat \<Rightarrow> nat \<Rightarrow> nat \<Rightarrow> storage \<Rightarrow> bool" where
  "storage_ok max_len mb k sto =
     (length (beam_storage sto) = max_len \<and>
      (\<forall>row \<in> set (beam_storage sto). length row = mb \<and> (\<forall>cell \<in> set row. length cell = k)) \<and>
      nll_storage sto = replicate mb 0)"

text \<open>The storage as lines 76-78 allocate it.\<close>

definition fresh_storage :: "nat \<Rightarrow> nat \<Rightarrow> nat \<Rightarrow> storage" where
  "fresh_storage max_len mb k =
     \<lparr>beam_storage = replicate max_len (replicate mb (replicate k 0)),
      nll_storage = replicate mb 0\<rparr>"

text \<open>
  What every state of the step loop of a batch satisfies: while \<open>nll\<close> is the view of
  the storage it holds zeros, and the beam tensor keeps its shape.
\<close>

definition loop_inv :: "nat \<Rightarrow> nat \<Rightarrow> nat \<Rightarrow> ('x, 'h) loop_state \<Rightarrow> bool" where
  "loop_inv max_len B k s =
     ((nll_is_view s \<longrightarrow> nll s = replicate B [0]) \<and>
      beam_shape B k (beam s) \<and> length (beam s) = max_len)"

text \<open>
  Every batch decoded on its own, each on the storage \<open>sto0\<close>, and the results
  concatenated.
\<close>

definition decode_apart ::
  "(storage \<Rightarrow> 'b batch \<Rightarrow> error + (storage \<times> string list)) \<Rightarrow> storage \<Rightarrow> 'b batch list
     \<Rightarrow> error + string list" where
  "decode_apart f sto0 bs =
     rbind (mapM (\<lambda>b. rbind (f sto0 b) (\<lambda>(sto', sents). Inr sents)) bs) (\<lambda>ss. Inr (concat ss))"

text \<open>
  Two decoders over the vocabulary of six tokens for one sample with source id 0. Both
  give \<open>a\<close> the log-probability \<open>-1/8\<close> and \<open>eos\<close> the log-probability \<open>-9/4\<close> at
  the first step. After \<open>a\<close>, \<open>table_c4\<close> prefers \<open>a\<close> and \<open>b\<close> to \<open>eos\<close>, and
  \<open>table_pin\<close> prefers \<open>eos\<close>. The states are those of a search with beam size 2 and
  \<open>max_len = 3\<close>.
\<close>

definition table_c4 :: "nat list \<Rightarrow> real list" where
  "table_c4 h = (if h = [0, 1] then [-50, -50, -9/4, -50, -1/8, -50]
                 else [-50, -50, -2, -50, -3/4, -1])"

definition table_pin :: "nat list \<Rightarrow> real list" where
  "table_pin h = (if h = [0, 1] then [-50, -50, -9/4, -50, -1/8, -50]
                 else [-50, -50, -1/4, -50, -3, -4])"

definition c4_s0 :: "(nat, nat list) loop_state" where
  "c4_s0 = init_state [toy_model vocab6 table_c4] [toy_dec table_c4] None 1 (fresh_storage 3 1 2)
             \<lparr>size_b = 1, content = [0]\<rparr>"

definition c4_s1 :: "(nat, nat list) loop_state" where
  "c4_s1 = \<lparr>ctx_dicts = [[(''src'', [[0]], None)]], h_ts = [[[0, 1]]],
            idxs = [4, 2], tile = [0, 0], nll = [[- (1 / 8), - (9 / 4)]],
            nll_is_view = False, beam = [[[4, 2]], [[0, 0]], [[0, 0]]]\<rparr>"

definition c4_s2 :: "(nat, nat list) loop_state" where
  "c4_s2 = \<lparr>ctx_dicts = [[(''src'', [[0, 0]], None)]], h_ts = [[[0, 1, 4], [0, 1, 2]]],
            idxs = [4, 5], tile = [0, 0], nll = [[- (7 / 8), - (9 / 8)]],
            nll_is_view = False, beam = [[[4, 4]], [[4, 5]], [[0, 0]]]\<rparr>"

definition pin_s2 :: "(nat, nat list) loop_state" where
  "pin_s2 = \<lparr>ctx_dicts = [[(''src'', [[0, 0]], None)]], h_ts = [[[0, 1, 4], [0, 1, 2]]],
             idxs = [2, 2], tile = [0, 1], nll = [[- (3 / 8), - (9 / 4)]],
             nll_is_view = False, beam = [[[4, 2]], [[2, 2]], [[0, 0]]]\<rparr>"

text \<open>
  A second vocabulary that maps the ids 4 and 5 to other words, and a data loader that
  yields no batch.
\<close>

definition word6_caps :: "nat \<Rightarrow> string" where
  "word6_caps i = (if i = 4 then ''A'' else if i = 5 then ''B'' else word6 i)"

definition vocab6_caps :: vocabulary where
  "vocab6_caps = \<lparr>pad = 0, bos = 1, eos = 2, unk = 3, n_vocab = 6, word_of = word6_caps\<rparr>"

definition loader_none :: "nat list data_loader" where
  "loader_none = \<lparr>batch_size = 2, batches = [], store_indices = False, orig_idxs = []\<rparr>"

text \<open>
  A decoder under which the hypotheses \<open>a <pad> <pad>\<close> (score \<open>-900\<close>, one counted
  token) and \<open>b b b\<close> (score \<open>-2000\<close>, three counted tokens) both end at step 3.
\<close>

definition table_far :: "nat list \<Rightarrow> real list" where
  "table_far h =
     (if h = [0, 1] then [-5000, -5000, -5000, -5000, -1, -2]
      else if h = [0, 1, 4] \<or> h = [0, 1, 4, 0] then [-1, -5000, -5000, -5000, -5000, -5000]
      else if h = [0, 1, 4, 0, 0] then [-5000, -5000, -897, -5000, -5000, -5000]
      else if h = [0, 1, 5] \<or> h = [0, 1, 5, 5] then [-5000, -5000, -5000, -5000, -5000, -1]
      else if h = [0, 1, 5, 5, 5] then [-5000, -5000, -1996, -5000, -5000, -5000]
      else [-5000, -5000, -5000, -5000, -5000, -5000])"


text \<open>
  The slots of every sample rearranged: slot \<open>j\<close> of sample \<open>b\<close> holds what slot
  \<open>ps[b][j]\<close> held. \<open>permuted\<close> says that every row of \<open>ps\<close> lists the \<open>k\<close> slots, each
  once.
\<close>

definition slots_by :: "nat list list \<Rightarrow> 'a list list \<Rightarrow> 'a list list" where
  "slots_by ps xs = map (\<lambda>(r, p). map (\<lambda>a. r ! a) p) (zip xs ps)"

definition permuted :: "nat \<Rightarrow> nat list list \<Rightarrow> bool" where
  "permuted k ps = (\<forall>p \<in> set ps. length p = k \<and> set p = {0..<k})"

text \<open>
  The scores of the slots of every sample lie less than \<open>1000\<close> apart: no score falls
  to another one plus the constant \<open>inf\<close> of line 44, or below it.
\<close>

definition within_inf :: "real list list \<Rightarrow> bool" where
  "within_inf nl = (\<forall>r \<in> set nl. \<forall>x \<in> set r. \<forall>y \<in> set r. x + inf_const < y)"

text \<open>
  What the states of the step loop satisfy before step \<open>t\<close>: the rows of the beam
  tensor from \<open>t\<close> on are still zero, and once a slot holds token \<open>2\<close> there are \<open>k\<close>
  scores per sample and the current tokens are row \<open>t - 1\<close> of the beam tensor.
\<close>

definition started :: "nat \<Rightarrow> nat \<Rightarrow> nat \<Rightarrow> ('x, 'h) loop_state \<Rightarrow> bool" where
  "started B k t s =
     (beam_shape B k (beam s) \<and>
      (\<forall>t'. t \<le> t' \<and> t' < length (beam s) \<longrightarrow> beam s ! t' = replicate B (replicate k 0)) \<and>
      (2 \<notin> set (idxs s) \<or>
       (length (nll s) = B \<and> (\<forall>r \<in> set (nll s). length r = k) \<and>
        0 < t \<and> t \<le> length (beam s) \<and> idxs s = concat (beam s ! (t - 1)))))"

text \<open>
  How the state \<open>s\<close> that the loop with the exit leaves and the state \<open>s'\<close> of the
  loop without it differ: the slots of every sample are rearranged, scores and
  history alike, up to a row that holds token \<open>2\<close> in every slot; the later rows were
  never written in \<open>s\<close> and hold token \<open>2\<close> in every slot in \<open>s'\<close>.
\<close>

definition exited_early :: "nat \<Rightarrow> nat \<Rightarrow> ('x, 'h) loop_state \<Rightarrow> ('x, 'h) loop_state \<Rightarrow> bool" where
  "exited_early B k s s' =
     (0 < k \<and> length (beam s') = length (beam s) \<and>
      beam_shape B k (beam s) \<and> beam_shape B k (beam s') \<and>
      length (nll s) = B \<and> (\<forall>r \<in> set (nll s). length r = k) \<and>
      (\<exists>ps. length ps = B \<and> permuted k ps \<and> nll s' = slots_by ps (nll s) \<and>
         (\<exists>tp < length (beam s).
            beam s ! tp = replicate B (replicate k 2) \<and>
            (\<forall>t' \<le> tp. beam s' ! t' = slots_by ps (beam s ! t')) \<and>
            (\<forall>t'. tp < t' \<and> t' < length (beam s) \<longrightarrow>
               beam s ! t' = replicate B (replicate k 0) \<and>
               beam s' ! t' = replicate B (replicate k 2)))))"

text \<open>
  Lines 160-169: the length-normalised scores among which the best hypothesis of
  every sample is selected.
\<close>

definition final_scores ::
  "nat \<Rightarrow> nat \<Rightarrow> real \<Rightarrow> nat \<Rightarrow> nat \<Rightarrow> ('x, 'h) loop_state \<Rightarrow> error + real list list" where
  "final_scores max_len e lp_alpha k B s =
     rbind (put_eos max_len e (beam s)) (\<lambda>bm. div_nll (nll s) (normalizer lp_alpha B k bm))"

text \<open>In every row one entry is larger than all the others.\<close>

definition one_best :: "real list list \<Rightarrow> bool" where
  "one_best fs =
     (\<forall>row \<in> set fs. \<exists>m \<in> set [0..<length row].
         \<forall>j \<in> set [0..<length row]. j \<noteq> m \<longrightarrow> row ! j < row ! m)"

text \<open>
  Another top-k that torch's contract admits: the selection of \<open>topk\<close>, listed by
  descending position.
\<close>

definition topk_by_pos :: topk_fn where
  "topk_by_pos k xs = map_sum id (sort_key (\<lambda>(v, i). - int i)) (topk k xs)"

text \<open>
  A decoder under which \<open>a\<close> ends with the score \<open>-1\<close> and \<open>b b\<close> with the score \<open>-2\<close>,
  so that their normalised scores are equal.
\<close>

definition table_tie :: "nat list \<Rightarrow> real list" where
  "table_tie h =
     (if h = [0, 1] then [-50, -50, -50, -50, -1, -1]
      else if h = [0, 1, 4] then [-50, -50, 0, -50, -50, -50]
      else if h = [0, 1, 5] then [-50, -50, -50, -50, -50, -1]
      else [-50, -50, 0, -50, -50, -50])"

section \<open>Basic facts\<close>

lemma rbind_Inr_iff: "rbind m f = Inr y \<longleftrightarrow> (\<exists>x. m = Inr x \<and> f x = Inr y)"
  by (cases m) (auto simp: rbind_def)

lemma mapM_Inr_iff:
  "mapM f xs = Inr ys \<longleftrightarrow> length ys = length xs \<and> (\<forall>i < length xs. f (xs ! i) = Inr (ys ! i))"
proof (induction xs arbitrary: ys)
  case Nil
  then show ?case by auto
next
  case (Cons x xs)
  show ?case
  proof (cases ys)
    case Nil
    then show ?thesis by (auto simp: rbind_Inr_iff)
  next
    case (Cons y ys')
    then show ?thesis
      using Cons.IH [of ys'] by (auto simp: rbind_Inr_iff nth_Cons split: nat.splits)
  qed
qed

lemma index_select_Inr_iff:
  "index_select xs is = Inr ys \<longleftrightarrow> (\<forall>i \<in> set is. i < length xs) \<and> ys = map (\<lambda>i. xs ! i) is"
  by (auto simp: index_select_def list_all_iff)

lemma gather_samples_Inr_iff:
  "gather_samples t is = Inr t' \<longleftrightarrow>
     length t' = length t \<and>
     (\<forall>r < length t. (\<forall>i \<in> set is. i < length (t ! r)) \<and> t' ! r = map (\<lambda>i. t ! r ! i) is)"
  by (auto simp: gather_samples_def mapM_Inr_iff index_select_Inr_iff)

text \<open>What \<open>is_topk\<close> gives for a selection that was returned.\<close>

lemma is_topk_Inr:
  assumes "is_topk tk" and "tk k xs = Inr r"
  shows "length r = k" and "k \<le> length xs" and "distinct (map snd r)"
    and "\<And>p. p \<in> set r \<Longrightarrow> snd p < length xs \<and> fst p = xs ! snd p"
    and "\<And>i p. i < length xs \<Longrightarrow> i \<notin> snd ` set r \<Longrightarrow> p \<in> set r \<Longrightarrow> xs ! i \<le> fst p"
proof -
  have c: "if k \<le> length xs
        then (\<exists>r. tk k xs = Inr r \<and> length r = k \<and> distinct (map snd r) \<and>
                  (\<forall>p \<in> set r. snd p < length xs \<and> fst p = xs ! snd p) \<and>
                  (\<forall>i < length xs. i \<notin> snd ` set r \<longrightarrow> (\<forall>p \<in> set r. xs ! i \<le> fst p)))
        else tk k xs = Inl RuntimeError"
    using assms(1) unfolding is_topk_def by blast
  show le: "k \<le> length xs"
  proof (rule ccontr)
    assume "\<not> k \<le> length xs"
    then have "tk k xs = Inl RuntimeError" using c by simp
    then show False using assms(2) by simp
  qed
  then obtain r' where "tk k xs = Inr r'" and r': "length r' = k \<and> distinct (map snd r') \<and>
                  (\<forall>p \<in> set r'. snd p < length xs \<and> fst p = xs ! snd p) \<and>
                  (\<forall>i < length xs. i \<notin> snd ` set r' \<longrightarrow> (\<forall>p \<in> set r'. xs ! i \<le> fst p))"
    using c unfolding if_P [OF le] by blast
  then have eq: "r' = r" using assms(2) by simp
  have r: "length r = k \<and> distinct (map snd r) \<and>
                  (\<forall>p \<in> set r. snd p < length xs \<and> fst p = xs ! snd p) \<and>
                  (\<forall>i < length xs. i \<notin> snd ` set r \<longrightarrow> (\<forall>p \<in> set r. xs ! i \<le> fst p))"
    using r' unfolding eq .
  show "length r = k" using r by simp
  show "distinct (map snd r)" using r by simp
  show "\<And>p. p \<in> set r \<Longrightarrow> snd p < length xs \<and> fst p = xs ! snd p" using r by blast
  show "\<And>i p. i < length xs \<Longrightarrow> i \<notin> snd ` set r \<Longrightarrow> p \<in> set r \<Longrightarrow> xs ! i \<le> fst p"
    using r by blast
qed

lemma is_topk_returns:
  assumes "is_topk tk" and "k \<le> length xs"
  shows "\<exists>r. tk k xs = Inr r"
  using assms unfolding is_topk_def by (metis (full_types))

text \<open>The top-k of the examples is one.\<close>

lemma topk_is_topk: "is_topk topk"
  unfolding is_topk_def
proof (intro allI)
  fix k and xs :: "real list"
  let ?f = "\<lambda>(v :: real, i :: nat). - v"
  let ?l = "sort_key ?f (zip xs [0..<length xs])"
  show "if k \<le> length xs
        then (\<exists>r. topk k xs = Inr r \<and> length r = k \<and> distinct (map snd r) \<and>
                  (\<forall>p \<in> set r. snd p < length xs \<and> fst p = xs ! snd p) \<and>
                  (\<forall>i < length xs. i \<notin> snd ` set r \<longrightarrow> (\<forall>p \<in> set r. xs ! i \<le> fst p)))
        else topk k xs = Inl RuntimeError"
  proof (cases "k \<le> length xs")
    case False
    then show ?thesis by (simp add: topk_def)
  next
    case True
    have tk: "topk k xs = Inr (take k ?l)" using True by (simp add: topk_def)
    have len: "length (take k ?l) = k" using True by simp
    have "mset (map snd ?l) = mset (map snd (zip xs [0..<length xs]))"
      by (simp only: mset_map mset_sort)
    also have "map snd (zip xs [0..<length xs]) = [0..<length xs]" by simp
    finally have "distinct (map snd ?l)"
      using mset_eq_imp_distinct_iff [of "map snd ?l" "[0..<length xs]"] by simp
    then have dist: "distinct (map snd (take k ?l))"
      by (simp add: take_map [symmetric])
    have mem: "\<And>p. p \<in> set ?l \<longleftrightarrow> snd p < length xs \<and> fst p = xs ! snd p"
    proof -
      fix p :: "real \<times> nat"
      have "p \<in> set ?l \<longleftrightarrow> p \<in> set (zip xs [0..<length xs])" by simp
      also have "\<dots> \<longleftrightarrow> snd p < length xs \<and> fst p = xs ! snd p"
        by (cases p) (auto simp: set_zip)
      finally show "p \<in> set ?l \<longleftrightarrow> snd p < length xs \<and> fst p = xs ! snd p" .
    qed
    have pos: "\<forall>p \<in> set (take k ?l). snd p < length xs \<and> fst p = xs ! snd p"
      using mem by (auto dest: in_set_takeD)
    have "sorted (map ?f ?l)" by (rule sorted_sort_key)
    then have "sorted (map ?f (take k ?l) @ map ?f (drop k ?l))"
      by (simp add: take_map [symmetric] drop_map [symmetric])
    then have ord: "\<And>p q. p \<in> set (take k ?l) \<Longrightarrow> q \<in> set (drop k ?l) \<Longrightarrow> ?f p \<le> ?f q"
      by (auto simp: sorted_append)
    have best: "\<forall>i < length xs. i \<notin> snd ` set (take k ?l) \<longrightarrow> (\<forall>p \<in> set (take k ?l). xs ! i \<le> fst p)"
    proof (intro allI impI ballI)
      fix i p assume i: "i < length xs" "i \<notin> snd ` set (take k ?l)" and p: "p \<in> set (take k ?l)"
      have "(xs ! i, i) \<in> set ?l" using i(1) mem [of "(xs ! i, i)"] by simp
      then have "(xs ! i, i) \<in> set (take k ?l) \<union> set (drop k ?l)"
        using set_append [of "take k ?l" "drop k ?l"] by simp
      moreover have "(xs ! i, i) \<notin> set (take k ?l)" using i(2) by force
      ultimately have "(xs ! i, i) \<in> set (drop k ?l)" by simp
      then have "?f p \<le> ?f (xs ! i, i)" using p ord by blast
      then show "xs ! i \<le> fst p" by (cases p) simp
    qed
    show ?thesis using True tk len dist pos best by simp
  qed
qed

section \<open>Lengths and length normalization\<close>

lemma lengths_nth:
  "b < B \<Longrightarrow> j < k \<Longrightarrow>
   lengths B k bm ! b ! j = max 1 (real (card {t. t < length bm \<and> bm ! t ! b ! j > 2}))"
  by (simp add: lengths_def length_filter_conv_card)






section \<open>The context tiler gathers\<close>

lemma mapM_map:
  "(\<And>x. x \<in> set xs \<Longrightarrow> f x = Inr (g x)) \<Longrightarrow> mapM f xs = Inr (map g xs)"
  by (induction xs) (auto simp: rbind_def)

lemma gather_samples_total:
  "\<forall>row \<in> set t. \<forall>i \<in> set is. i < length row \<Longrightarrow>
   gather_samples t is = Inr (map (\<lambda>row. map (\<lambda>i. row ! i) is) t)"
  unfolding gather_samples_def
  by (rule mapM_map) (simp add: index_select_def list_all_iff)

lemma tile_mask_total:
  "\<forall>m. msk = Some m \<longrightarrow> (\<forall>row \<in> set m. \<forall>i \<in> set is. i < length row) \<Longrightarrow>
   tile_mask msk is = Inr (map_option (map (\<lambda>row. map (\<lambda>i. row ! i) is)) msk)"
  by (cases msk) (simp_all add: tile_mask_def gather_samples_total rbind_def)

lemma tile_ctx_dict_total:
  assumes "in_range ctx_dict is"
  shows "tile_ctx_dict ctx_dict is =
           Inr (map (\<lambda>(key, (t, msk)). (key, (map (\<lambda>row. map (\<lambda>i. row ! i) is) t,
                                               map_option (map (\<lambda>row. map (\<lambda>i. row ! i) is)) msk)))
                    ctx_dict)"
  unfolding tile_ctx_dict_def
proof (rule mapM_map)
  fix x assume x: "x \<in> set ctx_dict"
  obtain key t msk where [simp]: "x = (key, (t, msk))" by (cases x) auto
  have "\<forall>row \<in> set t. \<forall>i \<in> set is. i < length row"
    and "\<forall>m. msk = Some m \<longrightarrow> (\<forall>row \<in> set m. \<forall>i \<in> set is. i < length row)"
    using assms x by (auto simp: in_range_def)
  then show "(case x of (k, t, msk) \<Rightarrow> rbind (gather_samples t is) (\<lambda>t'. rbind (tile_mask msk is) (\<lambda>msk'. Inr (k, t', msk'))))
    = Inr (case x of (key, t, msk) \<Rightarrow> (key, map (\<lambda>row. map ((!) row) is) t, map_option (map (\<lambda>row. map ((!) row) is)) msk))"
    by (simp add: gather_samples_total tile_mask_total rbind_def)
qed

text \<open>
  Claim C9. For an index sequence that addresses samples of the context, the tiler
  returns a mapping with the same keys in which column \<open>j\<close> of every tensor, and of
  every mask that is present, is column \<open>idxs[j]\<close> of the input; an absent mask stays
  absent. The tiler is a function of its arguments: it builds a new dict and new tensors and
  assigns to nothing.
\<close>

theorem tile_ctx_dict_gathers:
  assumes "in_range ctx_dict is"
  shows "\<exists>ctx'. tile_ctx_dict ctx_dict is = Inr ctx' \<and> map fst ctx' = map fst ctx_dict \<and>
           (\<forall>n < length ctx_dict.
              length (fst (snd (ctx' ! n))) = length (fst (snd (ctx_dict ! n))) \<and>
              (\<forall>r < length (fst (snd (ctx_dict ! n))). \<forall>j < length is.
                 fst (snd (ctx' ! n)) ! r ! j = fst (snd (ctx_dict ! n)) ! r ! (is ! j)) \<and>
              (snd (snd (ctx' ! n)) = None \<longleftrightarrow> snd (snd (ctx_dict ! n)) = None) \<and>
              (\<forall>m m'. snd (snd (ctx_dict ! n)) = Some m \<and> snd (snd (ctx' ! n)) = Some m' \<longrightarrow>
                 length m' = length m \<and>
                 (\<forall>r < length m. \<forall>j < length is. m' ! r ! j = m ! r ! (is ! j))))"
proof -
  let ?g = "\<lambda>(key, (t, msk)). (key, (map (\<lambda>row. map (\<lambda>i. row ! i) is) t,
                                      map_option (map (\<lambda>row. map (\<lambda>i. row ! i) is)) msk))"
  have eq: "tile_ctx_dict ctx_dict is = Inr (map ?g ctx_dict)"
    using assms by (rule tile_ctx_dict_total)
  have keys: "map fst (map ?g ctx_dict) = map fst ctx_dict"
    by (auto split: prod.splits)
  have "\<forall>n < length ctx_dict.
              length (fst (snd (map ?g ctx_dict ! n))) = length (fst (snd (ctx_dict ! n))) \<and>
              (\<forall>r < length (fst (snd (ctx_dict ! n))). \<forall>j < length is.
                 fst (snd (map ?g ctx_dict ! n)) ! r ! j = fst (snd (ctx_dict ! n)) ! r ! (is ! j)) \<and>
              (snd (snd (map ?g ctx_dict ! n)) = None \<longleftrightarrow> snd (snd (ctx_dict ! n)) = None) \<and>
              (\<forall>m m'. snd (snd (ctx_dict ! n)) = Some m \<and> snd (snd (map ?g ctx_dict ! n)) = Some m' \<longrightarrow>
                 length m' = length m \<and>
                 (\<forall>r < length m. \<forall>j < length is. m' ! r ! j = m ! r ! (is ! j)))"
    by (auto split: prod.splits)
  with eq keys show ?thesis by blast
qed

theorem tile_ctx_dict_gathers_witness:
  "in_range [(''txt'', ([[10, 20], [30, 40::nat]], Some [[True, False], [False, True]])),
             (''img'', ([[1, 2]], None))] [1, 1, 0] \<and>
   tile_ctx_dict [(''txt'', ([[10, 20], [30, 40::nat]], Some [[True, False], [False, True]])),
             (''img'', ([[1, 2]], None))] [1, 1, 0] =
     Inr [(''txt'', ([[20, 20, 10], [40, 40, 30]], Some [[False, False, True], [True, True, False]])),
          (''img'', ([[2, 2, 1]], None))]"
proof -
  have r: "in_range [(''txt'', ([[10, 20], [30, 40::nat]], Some [[True, False], [False, True]])),
             (''img'', ([[1, 2]], None))] [1, 1, 0]"
    by (simp add: in_range_def)
  have "tile_ctx_dict [(''txt'', ([[10, 20], [30, 40::nat]], Some [[True, False], [False, True]])),
             (''img'', ([[1, 2]], None))] [1, 1, 0] =
     Inr [(''txt'', ([[20, 20, 10], [40, 40, 30]], Some [[False, False, True], [True, True, False]])),
          (''img'', ([[2, 2, 1]], None))]"
    by (simp add: tile_ctx_dict_def gather_samples_def index_select_def tile_mask_def rbind_def)
  then show ?thesis using r tile_ctx_dict_gathers [OF r] by simp
qed

section \<open>Recording the selection\<close>

lemma concat_nth_rect:
  assumes "\<forall>r \<in> set xss. length r = k" and "i < length xss * k"
  shows "concat xss ! i = xss ! (i div k) ! (i mod k)"
  using assms
proof (induction xss arbitrary: i)
  case Nil
  then show ?case by simp
next
  case (Cons r xss)
  show ?case
  proof (cases "i < k")
    case True
    then show ?thesis using Cons.prems by (simp add: nth_append)
  next
    case False
    then have "i - k < length xss * k" using Cons.prems by auto
    then have "concat xss ! (i - k) = xss ! ((i - k) div k) ! ((i - k) mod k)"
      using Cons by auto
    moreover have "0 < k" using Cons.prems by (cases k) auto
    moreover have "i div k = Suc ((i - k) div k)" using False \<open>0 < k\<close>
      by (simp add: le_div_geq)
    moreover have "i mod k = (i - k) mod k" using False
      by (simp add: le_mod_geq)
    ultimately show ?thesis using False Cons.prems by (simp add: nth_append)
  qed
qed

lemma length_concat_rect:
  "\<forall>r \<in> set xss. length r = k \<Longrightarrow> length (concat xss) = length xss * k"
  by (induction xss) auto

lemma new_tile_nth:
  assumes "length pdxs = B" and "\<forall>r \<in> set pdxs. length r = k" and "i < B * k"
  shows "new_tile k B t pdxs ! i = pdxs ! (i div k) ! (i mod k) + (i div k) * (if t \<noteq> 0 then k else 1)"
proof -
  have "length (concat pdxs) = B * k"
    using length_concat_rect [OF assms(2)] assms(1) by simp
  moreover have "concat pdxs ! i = pdxs ! (i div k) ! (i mod k)"
    using assms by (simp add: concat_nth_rect)
  ultimately show ?thesis using assms(3) by (simp add: new_tile_def)
qed

lemma gather_history_total:
  assumes "\<forall>row \<in> set hist. \<forall>b < length pdxs. b < length row \<longrightarrow> (\<forall>a \<in> set (pdxs ! b). a < length (row ! b))"
  shows "gather_history pdxs hist = Inr (gathered pdxs hist)"
  unfolding gather_history_def gathered_def
proof (rule mapM_map)
  fix row assume row: "row \<in> set hist"
  show "mapM (\<lambda>(r, p). index_select r p) (zip row pdxs) = Inr (map (\<lambda>(r, p). map (\<lambda>a. r ! a) p) (zip row pdxs))"
  proof (rule mapM_map)
    fix x assume x: "x \<in> set (zip row pdxs)"
    then obtain b where b: "b < length row" "b < length pdxs" "x = (row ! b, pdxs ! b)"
      by (auto simp: set_zip)
    then have "\<forall>a \<in> set (pdxs ! b). a < length (row ! b)" using assms row by blast
    then show "(case x of (r, p) \<Rightarrow> index_select r p) = Inr (case x of (r, p) \<Rightarrow> map (\<lambda>a. r ! a) p)"
      using b by (simp add: index_select_def list_all_iff)
  qed
qed

lemma record_topk_total:
  assumes "t < length bm" and "beam_shape B k bm" and "flat_shape B k V flat" and "0 < V"
  shows "record_topk V k B t flat bm =
           Inr (gathered (map (map (\<lambda>f. f div V)) flat) (take t bm)
                  @ map (map (\<lambda>f. f mod V)) flat # drop (Suc t) bm,
                concat (map (map (\<lambda>f. f mod V)) flat),
                new_tile k B t (map (map (\<lambda>f. f div V)) flat))"
proof -
  let ?pdxs = "map (map (\<lambda>f. f div V)) flat"
  let ?bm1 = "bm[t := map (map (\<lambda>f. f mod V)) flat]"
  have take: "take t ?bm1 = take t bm" by simp
  have drop: "drop t ?bm1 = map (map (\<lambda>f. f mod V)) flat # drop (Suc t) bm"
    using assms(1) by (simp add: drop_update_swap Cons_nth_drop_Suc [symmetric])
  have nth: "?bm1 ! t = map (map (\<lambda>f. f mod V)) flat" using assms(1) by simp
  have anc: "\<forall>row \<in> set (take t bm). \<forall>b < length ?pdxs. b < length row \<longrightarrow>
               (\<forall>a \<in> set (?pdxs ! b). a < length (row ! b))"
  proof (intro ballI allI impI)
    fix row b a
    assume row: "row \<in> set (take t bm)" and b: "b < length ?pdxs" "b < length row"
      and a: "a \<in> set (?pdxs ! b)"
    have "row \<in> set bm" using row by (rule in_set_takeD)
    then have "length (row ! b) = k" using assms(2) b by (auto simp: beam_shape_def)
    moreover obtain f where "f \<in> set (flat ! b)" "a = f div V" using a b by auto
    moreover have "flat ! b \<in> set flat" using b by simp
    ultimately show "a < length (row ! b)"
      using assms(3,4) by (auto simp: flat_shape_def less_mult_imp_div_less)
  qed
  have g: "gather_history ?pdxs (take t bm) = Inr (gathered ?pdxs (take t bm))"
    using anc by (rule gather_history_total)
  show ?thesis
  proof (cases "t > 0")
    case True
    then show ?thesis using assms(1) g
      by (simp add: record_topk_def Let_def take drop rbind_def del: take_update_cancel drop_update_cancel)
  next
    case False
    then have "t = 0" by simp
    then show ?thesis using assms(1)
      by (cases bm) (simp_all add: record_topk_def Let_def gathered_def)
  qed
qed


lemma gathered_nth:
  assumes "t' < length hist" and "b < length (hist ! t')" and "b < length pdxs" and "j < length (pdxs ! b)"
  shows "gathered pdxs hist ! t' ! b ! j = hist ! t' ! b ! (pdxs ! b ! j)"
  using assms by (simp add: gathered_def)

lemma flat_shape_nth:
  assumes "flat_shape B k V flat" and "b < B" and "j < k"
  shows "length flat = B" and "length (flat ! b) = k" and "flat ! b ! j < k * V"
proof -
  show len: "length flat = B" using assms(1) by (simp add: flat_shape_def)
  then have mem: "flat ! b \<in> set flat" using assms(2) by simp
  then show row: "length (flat ! b) = k" using assms(1) by (simp add: flat_shape_def)
  then have "flat ! b ! j \<in> set (flat ! b)" using assms(3) by simp
  then show "flat ! b ! j < k * V" using assms(1) mem by (auto simp: flat_shape_def)
qed

lemma beam_shape_nth:
  assumes "beam_shape B k bm" and "t < length bm" and "b < B"
  shows "length (bm ! t) = B" and "length (bm ! t ! b) = k"
proof -
  have mem: "bm ! t \<in> set bm" using assms(2) by simp
  then show len: "length (bm ! t) = B" using assms(1) by (simp add: beam_shape_def)
  then have "bm ! t ! b \<in> set (bm ! t)" using assms(3) by simp
  then show "length (bm ! t ! b) = k" using assms(1) mem by (auto simp: beam_shape_def)
qed

text \<open>
  Claim C3. A flattened position \<open>f\<close> that \<open>topk\<close> selected in a row of \<open>k * V\<close> scores
  is split into the previous slot \<open>f div V\<close> and the token \<open>f mod V\<close>, with
  \<open>(f div V) * V + f mod V = f\<close>; the token is written to row \<open>t\<close> of the beam tensor and is
  the current token of the slot; every earlier row \<open>t' < t\<close> holds at the slot what it
  held at the previous slot.
\<close>

theorem record_topk_decomposes:
  assumes "t < length bm" and "beam_shape B k bm" and "flat_shape B k V flat" and "0 < V"
    and "b < B" and "j < k"
  shows "\<exists>bm' ys til. record_topk V k B t flat bm = Inr (bm', ys, til) \<and>
           (flat ! b ! j div V) * V + flat ! b ! j mod V = flat ! b ! j \<and>
           flat ! b ! j div V < k \<and> flat ! b ! j mod V < V \<and>
           bm' ! t ! b ! j = flat ! b ! j mod V \<and>
           ys ! (b * k + j) = flat ! b ! j mod V \<and>
           (\<forall>t' < t. bm' ! t' ! b ! j = bm ! t' ! b ! (flat ! b ! j div V))"
proof -
  let ?pdxs = "map (map (\<lambda>f. f div V)) flat"
  let ?toks = "map (map (\<lambda>f. f mod V)) flat"
  let ?bm' = "gathered ?pdxs (take t bm) @ ?toks # drop (Suc t) bm"
  note fs = flat_shape_nth [OF assms(3,5,6)]
  have len_g: "length (gathered ?pdxs (take t bm)) = t"
    using assms(1) by (simp add: gathered_def)
  have row_t: "?bm' ! t ! b ! j = flat ! b ! j mod V"
    using len_g fs assms(5,6) by (simp add: nth_append)
  have hist: "\<forall>t' < t. ?bm' ! t' ! b ! j = bm ! t' ! b ! (flat ! b ! j div V)"
  proof (intro allI impI)
    fix t' assume t': "t' < t"
    then have "t' < length bm" using assms(1) by simp
    note bs = beam_shape_nth [OF assms(2) this assms(5)]
    have "?bm' ! t' = gathered ?pdxs (take t bm) ! t'"
      using t' len_g by (simp add: nth_append)
    moreover have "gathered ?pdxs (take t bm) ! t' ! b ! j = take t bm ! t' ! b ! (?pdxs ! b ! j)"
      using t' assms(1,5,6) fs bs by (intro gathered_nth) simp_all
    ultimately show "?bm' ! t' ! b ! j = bm ! t' ! b ! (flat ! b ! j div V)"
      using t' fs assms(5,6) by simp
  qed
  have toks_rect: "\<forall>r \<in> set ?toks. length r = k"
    using assms(3) by (auto simp: flat_shape_def)
  have "b * k + j < length ?toks * k"
  proof -
    have "b * k + j < b * k + k" using assms(6) by simp
    also have "\<dots> = Suc b * k" by simp
    also have "\<dots> \<le> B * k" using assms(5) by (intro mult_le_mono1) simp
    finally show ?thesis using fs by simp
  qed
  then have "concat ?toks ! (b * k + j) = ?toks ! ((b * k + j) div k) ! ((b * k + j) mod k)"
    using toks_rect by (intro concat_nth_rect)
  then have ys: "concat ?toks ! (b * k + j) = flat ! b ! j mod V"
    using assms(5,6) fs by simp
  have anc: "flat ! b ! j div V < k"
    using fs(3) assms(4) by (simp add: less_mult_imp_div_less)
  have "record_topk V k B t flat bm = Inr (?bm', concat ?toks, new_tile k B t ?pdxs)"
    using assms(1-4) by (rule record_topk_total)
  then show ?thesis using row_t hist ys anc assms(4) by auto
qed

theorem record_topk_decomposes_witness:
  "beam_shape 1 2 [[[4, 5]], [[0, 0]], [[0, 0]]] \<and> flat_shape 1 2 6 [[10, 4]] \<and>
   (\<exists>bm' ys til. record_topk 6 2 1 1 [[10, 4]] [[[4, 5]], [[0, 0]], [[0, 0]]] = Inr (bm', ys, til) \<and>
      bm' ! 1 ! 0 ! 0 = 4 \<and> ys ! 0 = 4 \<and> bm' ! 0 ! 0 ! 0 = 5)"
proof -
  have t: "1 < length [[[4, 5]], [[0, 0]], [[0, 0::nat]]]" by simp
  have bs: "beam_shape 1 2 [[[4, 5]], [[0, 0]], [[0, 0]]]" by (simp add: beam_shape_def)
  have fs: "flat_shape 1 2 6 [[10, 4]]" by (simp add: flat_shape_def)
  have lt: "(0::nat) < 6" "(0::nat) < 1" "(0::nat) < 2" by simp_all
  show ?thesis
    using record_topk_decomposes [OF t bs fs lt] bs fs by simp
qed

text \<open>
  Claim C2. The new \<open>tile\<close> has one entry per slot. At \<open>t = 0\<close>, where the selection is
  over one row of \<open>V\<close> scores per sample, slot \<open>i\<close> reads row \<open>i div k\<close>; at \<open>t > 0\<close> slot
  \<open>i\<close> reads row \<open>ancestor + (i div k) * k\<close>, which lies in the block of sample
  \<open>i div k\<close>.
\<close>

theorem record_topk_tile:
  assumes "t < length bm" and "beam_shape B k bm" and "flat_shape B k V flat" and "0 < V"
    and "i < B * k"
  shows "\<exists>bm' ys til. record_topk V k B t flat bm = Inr (bm', ys, til) \<and> length til = B * k \<and>
           (t = 0 \<and> (\<forall>r \<in> set flat. \<forall>f \<in> set r. f < V) \<longrightarrow> til ! i = i div k) \<and>
           (t > 0 \<longrightarrow> til ! i = flat ! (i div k) ! (i mod k) div V + (i div k) * k \<and>
                       til ! i div k = i div k)"
proof -
  let ?pdxs = "map (map (\<lambda>f. f div V)) flat"
  have k: "0 < k" using assms(5) by (cases k) auto
  have b: "i div k < B" using assms(5) k by (simp add: less_mult_imp_div_less)
  have j: "i mod k < k" using k by simp
  note fs = flat_shape_nth [OF assms(3) b j]
  have shape: "length ?pdxs = B" "\<forall>r \<in> set ?pdxs. length r = k"
    using assms(3) by (auto simp: flat_shape_def)
  have len: "length (new_tile k B t ?pdxs) = B * k"
    using length_concat_rect [OF shape(2)] shape(1) by (simp add: new_tile_def)
  have til: "new_tile k B t ?pdxs ! i =
      flat ! (i div k) ! (i mod k) div V + (i div k) * (if t \<noteq> 0 then k else 1)"
    using new_tile_nth [OF shape assms(5)] fs b j by simp
  have anc: "flat ! (i div k) ! (i mod k) div V < k"
    using fs(3) assms(4) by (simp add: less_mult_imp_div_less)
  have t0: "(\<forall>r \<in> set flat. \<forall>f \<in> set r. f < V) \<Longrightarrow> flat ! (i div k) ! (i mod k) div V = 0"
  proof -
    assume a: "\<forall>r \<in> set flat. \<forall>f \<in> set r. f < V"
    have "flat ! (i div k) \<in> set flat" using fs(1) b by simp
    moreover have "flat ! (i div k) ! (i mod k) \<in> set (flat ! (i div k))" using fs(2) j by simp
    ultimately show ?thesis using a by simp
  qed
  have blk: "(flat ! (i div k) ! (i mod k) div V + (i div k) * k) div k = i div k"
    using anc k by simp
  have "record_topk V k B t flat bm =
          Inr (gathered ?pdxs (take t bm) @ map (map (\<lambda>f. f mod V)) flat # drop (Suc t) bm,
               concat (map (map (\<lambda>f. f mod V)) flat), new_tile k B t ?pdxs)"
    using assms(1-4) by (rule record_topk_total)
  then show ?thesis using til t0 blk len by auto
qed

theorem record_topk_tile_witness:
  "beam_shape 1 2 [[[4, 5]], [[0, 0]], [[0, 0]]] \<and> flat_shape 1 2 6 [[10, 4]] \<and>
   flat_shape 1 2 6 [[4, 5]] \<and>
   (\<exists>bm' ys til. record_topk 6 2 1 0 [[4, 5]] [[[0, 0]], [[0, 0]], [[0, 0]]] = Inr (bm', ys, til) \<and>
      til ! 1 = 0) \<and>
   (\<exists>bm' ys til. record_topk 6 2 1 1 [[10, 4]] [[[4, 5]], [[0, 0]], [[0, 0]]] = Inr (bm', ys, til) \<and>
      til ! 0 = 1)"
proof -
  have t: "1 < length [[[4, 5]], [[0, 0]], [[0, 0::nat]]]" by simp
  have t0: "0 < length [[[0, 0]], [[0, 0]], [[0, 0::nat]]]" by simp
  have bs: "beam_shape 1 2 [[[4, 5]], [[0, 0]], [[0, 0]]]" by (simp add: beam_shape_def)
  have bs0: "beam_shape 1 2 [[[0, 0]], [[0, 0]], [[0, 0]]]" by (simp add: beam_shape_def)
  have fs: "flat_shape 1 2 6 [[10, 4]]" by (simp add: flat_shape_def)
  have fs0: "flat_shape 1 2 6 [[4, 5]]" by (simp add: flat_shape_def)
  have lt: "(0::nat) < 6" "(0::nat) < 1 * 2" "(1::nat) < 1 * 2" by simp_all
  have a: "\<exists>bm' ys til. record_topk 6 2 1 0 [[4, 5]] [[[0, 0]], [[0, 0]], [[0, 0]]] = Inr (bm', ys, til) \<and>
      til ! 1 = 0"
    using record_topk_tile [OF t0 bs0 fs0 lt(1) lt(3)] by auto
  have b: "\<exists>bm' ys til. record_topk 6 2 1 1 [[10, 4]] [[[4, 5]], [[0, 0]], [[0, 0]]] = Inr (bm', ys, til) \<and>
      til ! 0 = 1"
    using record_topk_tile [OF t bs fs lt(1) lt(2)] by auto
  show ?thesis using bs fs fs0 a b by (intro conjI)
qed


section \<open>Count and order of the results\<close>

lemma sorted_enumerate_perm:
  assumes "mset orig = mset [0..<n]"
  shows "map snd (sort_key snd (enumerate 0 orig)) = [0..<n]"
proof -
  let ?zs = "sort_key snd (enumerate 0 orig)"
  have "mset (map snd ?zs) = image_mset snd (mset (enumerate 0 orig))" by simp
  also have "\<dots> = mset (map snd (enumerate 0 orig))" by (simp only: mset_map)
  also have "\<dots> = mset orig" by (simp only: map_snd_enumerate)
  finally have m: "mset (map snd ?zs) = mset [0..<n]" using assms by simp
  have "sorted (map snd ?zs)" by (rule sorted_sort_key)
  moreover have "distinct (map snd ?zs)"
    using m by (metis distinct_upt mset_eq_imp_distinct_iff)
  moreover have "set (map snd ?zs) = set [0..<n]"
    using m by (rule mset_eq_setD)
  ultimately show ?thesis
    by (intro sorted_distinct_set_unique) simp_all
qed

lemma recover_order_perm:
  assumes "mset orig = mset [0..<length results]"
  shows "\<exists>out. recover_order results orig = Inr out \<and> length out = length results \<and>
           (\<forall>p < length results. out ! (orig ! p) = results ! p)"
proof -
  let ?n = "length results"
  let ?zs = "sort_key snd (enumerate 0 orig)"
  have len: "length orig = ?n"
    using assms by (metis length_upt minus_nat.diff_0 size_mset)
  have dist: "distinct orig"
    using assms by (metis distinct_upt mset_eq_imp_distinct_iff)
  have snd: "map snd ?zs = [0..<?n]" using assms by (rule sorted_enumerate_perm)
  have lz: "length ?zs = ?n" using len by simp
  have mem: "\<And>z. z \<in> set ?zs \<Longrightarrow> fst z < ?n \<and> orig ! fst z = snd z"
  proof -
    fix z assume "z \<in> set ?zs"
    then have "z \<in> set (enumerate 0 orig)" by simp
    moreover obtain i j where "z = (i, j)" by (cases z) auto
    ultimately show "fst z < ?n \<and> orig ! fst z = snd z"
      using len by (auto simp: in_set_enumerate_eq)
  qed
  let ?out = "map (\<lambda>(i, j). results ! i) ?zs"
  have "recover_order results orig = Inr ?out"
    unfolding recover_order_def
  proof (rule mapM_map)
    fix x assume "x \<in> set ?zs"
    then show "(case x of (i, j) \<Rightarrow> if i < length results then Inr (results ! i) else Inl IndexError)
             = Inr (case x of (i, j) \<Rightarrow> results ! i)"
      using mem [of x] by (auto split: prod.splits)
  qed
  moreover have "length ?out = ?n" using lz by simp
  moreover have "\<forall>p < ?n. ?out ! (orig ! p) = results ! p"
  proof (intro allI impI)
    fix p assume p: "p < ?n"
    then have "orig ! p \<in> set orig" using len by simp
    then have r: "orig ! p < ?n" using assms by (metis atLeastLessThan_iff mset_eq_setD set_upt)
    have "snd (?zs ! (orig ! p)) = map snd ?zs ! (orig ! p)" using r lz by simp
    also have "\<dots> = orig ! p" using snd r by simp
    finally have s: "snd (?zs ! (orig ! p)) = orig ! p" .
    have "?zs ! (orig ! p) \<in> set ?zs" using r lz by (metis nth_mem)
    then have "fst (?zs ! (orig ! p)) < ?n" "orig ! fst (?zs ! (orig ! p)) = orig ! p"
      using mem s by auto
    then have "fst (?zs ! (orig ! p)) = p"
      using dist p len by (simp add: nth_eq_iff_index_eq)
    then show "?out ! (orig ! p) = results ! p"
      using r lz by (simp add: case_prod_unfold)
  qed
  ultimately show ?thesis by blast
qed

lemma rbind_InrE:
  assumes "rbind m f = Inr y"
  obtains x where "m = Inr x" and "f x = Inr y"
  using assms by (auto simp: rbind_Inr_iff)

lemma finish_InrE:
  assumes "finish tk vocab max_len lp_alpha k B sto s = Inr r"
  obtains bm nl sel hyps where "put_eos max_len (eos vocab) (beam s) = Inr bm"
    and "div_nll (nll s) (normalizer lp_alpha B k bm) = Inr nl"
    and "mapM (tk 1) nl = Inr sel"
    and "select_hyps B bm (map (\<lambda>r. snd (hd r)) sel) = Inr hyps"
    and "r = (\<lparr>beam_storage = write_view B bm (beam_storage sto),
               nll_storage = (if nll_is_view s then map hd nl @ drop B (nll_storage sto)
                              else nll_storage sto)\<rparr>,
              list_of_idxs_to_sents vocab hyps)"
proof -
  from assms obtain bm where 1: "put_eos max_len (eos vocab) (beam s) = Inr bm"
    and a: "rbind (div_nll (nll s) (normalizer lp_alpha B k bm)) (\<lambda>nl.
     rbind (mapM (tk 1) nl) (\<lambda>sel.
     let top_hyps = map (\<lambda>r. snd (hd r)) sel in
     rbind (select_hyps B bm top_hyps) (\<lambda>hyps.
     Inr (\<lparr>beam_storage = write_view B bm (beam_storage sto),
           nll_storage = (if nll_is_view s then map hd nl @ drop B (nll_storage sto)
                          else nll_storage sto)\<rparr>,
          list_of_idxs_to_sents vocab hyps)))) = Inr r"
    unfolding finish_def by (rule rbind_InrE)
  from a obtain nl where 2: "div_nll (nll s) (normalizer lp_alpha B k bm) = Inr nl"
    and b: "rbind (mapM (tk 1) nl) (\<lambda>sel.
     let top_hyps = map (\<lambda>r. snd (hd r)) sel in
     rbind (select_hyps B bm top_hyps) (\<lambda>hyps.
     Inr (\<lparr>beam_storage = write_view B bm (beam_storage sto),
           nll_storage = (if nll_is_view s then map hd nl @ drop B (nll_storage sto)
                          else nll_storage sto)\<rparr>,
          list_of_idxs_to_sents vocab hyps))) = Inr r"
    by (rule rbind_InrE)
  from b obtain sel where 3: "mapM (tk 1) nl = Inr sel"
    and c: "rbind (select_hyps B bm (map (\<lambda>r. snd (hd r)) sel)) (\<lambda>hyps.
     Inr (\<lparr>beam_storage = write_view B bm (beam_storage sto),
           nll_storage = (if nll_is_view s then map hd nl @ drop B (nll_storage sto)
                          else nll_storage sto)\<rparr>,
          list_of_idxs_to_sents vocab hyps)) = Inr r"
    unfolding Let_def by (rule rbind_InrE)
  from c obtain hyps where 4: "select_hyps B bm (map (\<lambda>r. snd (hd r)) sel) = Inr hyps"
    and d: "Inr (\<lparr>beam_storage = write_view B bm (beam_storage sto),
           nll_storage = (if nll_is_view s then map hd nl @ drop B (nll_storage sto)
                          else nll_storage sto)\<rparr>,
          list_of_idxs_to_sents vocab hyps) = (Inr r :: error + (storage \<times> string list))"
    by (rule rbind_InrE)
  from d have 5: "r = (\<lparr>beam_storage = write_view B bm (beam_storage sto),
               nll_storage = (if nll_is_view s then map hd nl @ drop B (nll_storage sto)
                              else nll_storage sto)\<rparr>,
              list_of_idxs_to_sents vocab hyps)" by simp
  from 1 2 3 4 5 show ?thesis by (rule that)
qed

lemma select_hyps_length: "select_hyps B bm top_hyps = Inr hyps \<Longrightarrow> length hyps = B"
  by (auto simp: select_hyps_def mapM_Inr_iff split: if_splits)

lemma finish_length:
  assumes "finish tk vocab max_len lp_alpha k B sto s = Inr (sto', sents)"
  shows "length sents = B"
  using assms
proof (rule finish_InrE)
  fix bm nl hyps and sel :: "(real \<times> nat) list list"
  assume "select_hyps B bm (map (\<lambda>r. snd (hd r)) sel) = Inr hyps"
    and "(sto', sents) = (\<lparr>beam_storage = write_view B bm (beam_storage sto),
               nll_storage = (if nll_is_view s then map hd nl @ drop B (nll_storage sto)
                              else nll_storage sto)\<rparr>,
              list_of_idxs_to_sents vocab hyps)"
  then show ?thesis
    using select_hyps_length by (simp add: list_of_idxs_to_sents_def)
qed

lemma decode_batch_InrE:
  assumes "decode_batch tk models ds vocab enc_args mb k max_len lp_alpha supp early sto batch = Inr r"
  obtains s where "size_b batch \<le> mb"
    and "step_loop tk ds (n_vocab vocab) (unk vocab) k supp early (size_b batch) [0..<max_len]
           (init_state models ds enc_args (size_b batch) sto batch) = Inr s"
    and "finish tk vocab max_len lp_alpha k (size_b batch)
           (sto\<lparr>beam_storage := zero_view (size_b batch) (beam_storage sto)\<rparr>) s = Inr r"
proof -
  have le: "size_b batch \<le> mb"
    using assms by (auto simp: decode_batch_def Let_def split: if_splits)
  then have "rbind (step_loop tk ds (n_vocab vocab) (unk vocab) k supp early (size_b batch) [0..<max_len]
                 (init_state models ds enc_args (size_b batch) sto batch))
        (finish tk vocab max_len lp_alpha k (size_b batch)
          (sto\<lparr>beam_storage := zero_view (size_b batch) (beam_storage sto)\<rparr>)) = Inr r"
    using assms by (simp add: decode_batch_def Let_def)
  then show ?thesis using le by (elim rbind_InrE) (rule that)
qed

lemma decode_batch_length:
  assumes "decode_batch tk models ds vocab enc_args mb k max_len lp_alpha supp early sto batch = Inr (sto', sents)"
  shows "length sents = size_b batch"
  using assms by (elim decode_batch_InrE) (rule finish_length)

lemma decode_batches_length:
  assumes "\<And>sto b sto' sents. f sto b = Inr (sto', sents) \<Longrightarrow> length sents = size_b b"
    and "decode_batches f sto bs acc = Inr results"
  shows "length results = length acc + sum_list (map size_b bs)"
  using assms(2)
proof (induction bs arbitrary: sto acc)
  case Nil
  then show ?case by simp
next
  case (Cons b bs)
  then obtain sto' sents where f: "f sto b = Inr (sto', sents)"
    and rest: "decode_batches f sto' bs (acc @ sents) = Inr results"
    by (auto simp: rbind_Inr_iff)
  then show ?case using Cons.IH [OF rest] assms(1) [OF f] by simp
qed

lemma collect_results_length:
  assumes "collect_results tk T models dl task_id k max_len lp_alpha supp = Inr results"
  shows "length results = sum_list (map size_b (batches dl))"
proof -
  from assms obtain r where
    "(case r of (ds, vocab, enc_args) \<Rightarrow>
     rbind (alloc max_len (batch_size dl) k) (\<lambda>sto.
     decode_batches
       (decode_batch tk models ds vocab enc_args (batch_size dl) (nat k) (nat max_len) lp_alpha supp True)
       sto (batches dl) [])) = Inr results"
    unfolding collect_results_def by (rule rbind_InrE)
  then obtain ds vocab enc_args sto where
    "decode_batches (decode_batch tk models ds vocab enc_args (batch_size dl) (nat k) (nat max_len)
        lp_alpha supp True) sto (batches dl) [] = Inr results"
    by (cases r) (auto elim: rbind_InrE)
  then have "length results = length ([] :: string list) + sum_list (map size_b (batches dl))"
    by (rule decode_batches_length [rotated]) (rule decode_batch_length)
  then show ?thesis by simp
qed

text \<open>
  Claim C1. A search that returns, returns one string per sample of the data loader.
  With \<open>store_indices\<close> and \<open>orig_idxs\<close> a permutation of the sample positions, the
  string decoded at position \<open>p\<close> is returned at position \<open>orig_idxs[p]\<close>; without
  \<open>store_indices\<close> the strings are returned in the order of decoding.
\<close>

theorem beam_search_count_and_order:
  assumes "beam_search tk T models dl task_id k max_len lp_alpha supp = Inr out"
    and "store_indices dl \<longrightarrow> mset (orig_idxs dl) = mset [0..<sum_list (map size_b (batches dl))]"
  shows "length out = sum_list (map size_b (batches dl)) \<and>
         (\<exists>results. collect_results tk T models dl task_id k max_len lp_alpha supp = Inr results \<and>
            length results = sum_list (map size_b (batches dl)) \<and>
            (if store_indices dl then \<forall>p < length results. out ! (orig_idxs dl ! p) = results ! p
             else out = results))"
proof -
  obtain results where c: "collect_results tk T models dl task_id k max_len lp_alpha supp = Inr results"
    and r: "(if store_indices dl then recover_order results (orig_idxs dl) else Inr results) = Inr out"
    using assms(1) by (auto simp: beam_search_def rbind_Inr_iff)
  have len: "length results = sum_list (map size_b (batches dl))"
    using c by (rule collect_results_length)
  show ?thesis
  proof (cases "store_indices dl")
    case True
    then have "mset (orig_idxs dl) = mset [0..<length results]" using assms(2) len by simp
    then obtain out' where "recover_order results (orig_idxs dl) = Inr out'"
      "length out' = length results" "\<forall>p < length results. out' ! (orig_idxs dl ! p) = results ! p"
      using recover_order_perm by blast
    then show ?thesis using True r c len by auto
  next
    case False
    then show ?thesis using r c len by auto
  qed
qed

theorem beam_search_count_and_order_witness:
  "beam_search topk no_topology [toy_model vocab6 table_ab] loader_ab None 2 4 0 False = Inr [''a b'', ''b'', ''a''] \<and>
   collect_results topk no_topology [toy_model vocab6 table_ab] loader_ab None 2 4 0 False = Inr [''a'', ''a b'', ''b''] \<and>
   mset (orig_idxs loader_ab) = mset [0..<sum_list (map size_b (batches loader_ab))] \<and>
   length [''a b'', ''b'', ''a''] = sum_list (map size_b (batches loader_ab))"
proof -
  have b: "beam_search topk no_topology [toy_model vocab6 table_ab] loader_ab None 2 4 0 False = Inr [''a b'', ''b'', ''a'']"
    by code_simp
  have c: "collect_results topk no_topology [toy_model vocab6 table_ab] loader_ab None 2 4 0 False = Inr [''a'', ''a b'', ''b'']"
    by code_simp
  have m: "store_indices loader_ab \<longrightarrow> mset (orig_idxs loader_ab) = mset [0..<sum_list (map size_b (batches loader_ab))]"
    by (simp add: loader_ab_def)
  have s: "store_indices loader_ab" by (simp add: loader_ab_def)
  show ?thesis using beam_search_count_and_order [OF b m] b c m s by simp
qed

section \<open>Reuse of the storage\<close>

lemma alloc_fresh:
  "alloc max_len mb k = Inr sto \<Longrightarrow> sto = fresh_storage (nat max_len) mb (nat k)"
  by (auto simp: alloc_def fresh_storage_def split: if_splits)

lemma fresh_storage_ok: "storage_ok max_len mb k (fresh_storage max_len mb k)"
  by (simp add: storage_ok_def fresh_storage_def)

lemma zeroed_beam:
  assumes "storage_ok max_len mb k sto" and "B \<le> mb"
  shows "narrow_view B (zero_view B (beam_storage sto)) = replicate max_len (replicate B (replicate k 0))"
proof -
  have "\<And>row. row \<in> set (beam_storage sto) \<Longrightarrow>
          take B (map (map (\<lambda>_. 0)) (take B row) @ drop B row) = replicate B (replicate k (0::nat))"
  proof -
    fix row assume r: "row \<in> set (beam_storage sto)"
    then have len: "length row = mb" and cells: "\<forall>cell \<in> set row. length cell = k"
      using assms(1) by (auto simp: storage_ok_def)
    have "map (map (\<lambda>_. 0::nat)) (take B row) = replicate B (replicate k 0)"
    proof (rule nth_equalityI)
      show "length (map (map (\<lambda>_. 0::nat)) (take B row)) = length (replicate B (replicate k (0::nat)))"
        using len assms(2) by simp
    next
      fix i assume "i < length (map (map (\<lambda>_. 0::nat)) (take B row))"
      then have i: "i < B" "i < length row" using len assms(2) by auto
      then have "length (row ! i) = k" using cells by simp
      then show "map (map (\<lambda>_. 0::nat)) (take B row) ! i = replicate B (replicate k 0) ! i"
        using i by (simp add: map_replicate_const)
    qed
    then show "take B (map (map (\<lambda>_. 0)) (take B row) @ drop B row) = replicate B (replicate k (0::nat))"
      by simp
  qed
  then have "map (take B) (zero_view B (beam_storage sto))
           = map (\<lambda>_. replicate B (replicate k (0::nat))) (beam_storage sto)"
    by (simp add: zero_view_def)
  then show ?thesis using assms(1) by (simp add: narrow_view_def storage_ok_def map_replicate_const)
qed

lemma init_state_storage:
  assumes "storage_ok max_len mb k sto" and "B \<le> mb"
  shows "init_state models ds enc_args B sto batch
       = init_state models ds enc_args B (fresh_storage max_len mb k) batch"
    and "nll (init_state models ds enc_args B sto batch) = replicate B [0]"
    and "beam (init_state models ds enc_args B sto batch) = replicate max_len (replicate B (replicate k 0))"
proof -
  have n: "map (\<lambda>x. [x]) (take B (nll_storage sto)) = replicate B [0::real]"
    using assms by (simp add: storage_ok_def min_def)
  have b: "narrow_view B (zero_view B (beam_storage sto)) = replicate max_len (replicate B (replicate k 0))"
    using assms by (rule zeroed_beam)
  have n': "map (\<lambda>x. [x]) (take B (nll_storage (fresh_storage max_len mb k))) = replicate B [0::real]"
    using assms(2) fresh_storage_ok [of max_len mb k] by (simp add: storage_ok_def min_def)
  have b': "narrow_view B (zero_view B (beam_storage (fresh_storage max_len mb k)))
          = replicate max_len (replicate B (replicate k 0))"
    using fresh_storage_ok assms(2) by (rule zeroed_beam)
  show "init_state models ds enc_args B sto batch
       = init_state models ds enc_args B (fresh_storage max_len mb k) batch"
    by (simp add: init_state_def Let_def n b n' b')
  show "nll (init_state models ds enc_args B sto batch) = replicate B [0]"
    by (simp add: init_state_def Let_def n)
  show "beam (init_state models ds enc_args B sto batch) = replicate max_len (replicate B (replicate k 0))"
    by (simp add: init_state_def Let_def b)
qed

lemma step_InrE [consumes 1, case_names Break Continue]:
  assumes "step tk ds V u k supp early B t s = Inr (brk, s')"
  obtains
    (Break) cds hs log_p1 where "predict ds V u supp s = Inr (cds, hs, log_p1)"
      and "brk" and "early" and "nonzero_eos (idxs s) \<noteq> []"
      and "length (nonzero_eos (idxs s)) = B * k"
      and "s' = s\<lparr>ctx_dicts := cds, h_ts := hs, idxs := nonzero_eos (idxs s)\<rparr>"
  | (Continue) cds hs log_p1 sel bm ys til where "predict ds V u supp s = Inr (cds, hs, log_p1)"
      and "\<not> brk"
      and "\<not> (nonzero_eos (idxs s) \<noteq> [] \<and> early \<and> length (nonzero_eos (idxs s)) = B * k)"
      and "select_topk tk V k B (nonzero_eos (idxs s)) (nll s) log_p1 = Inr sel"
      and "record_topk V k B t (map (map snd) sel) (beam s) = Inr (bm, ys, til)"
      and "s' = s\<lparr>ctx_dicts := cds, h_ts := hs, idxs := ys, tile := til, nll := map (map fst) sel,
                   nll_is_view := False, beam := bm\<rparr>"
proof -
  from assms obtain p where p: "predict ds V u supp s = Inr p"
    and rest: "(case p of (cds, hs, log_p1) \<Rightarrow>
     let pos = nonzero_eos (idxs s);
         s1 = s\<lparr>ctx_dicts := cds, h_ts := hs\<rparr>
     in if pos \<noteq> [] \<and> early \<and> length pos = B * k then Inr (True, s1\<lparr>idxs := pos\<rparr>)
        else
          rbind (select_topk tk V k B pos (nll s) log_p1) (\<lambda>sel.
          rbind (record_topk V k B t (map (map snd) sel) (beam s)) (\<lambda>(bm, ys, til).
          Inr (False, s1\<lparr>idxs := ys, tile := til, nll := map (map fst) sel,
                          nll_is_view := False, beam := bm\<rparr>)))) = Inr (brk, s')"
    unfolding step_def by (rule rbind_InrE)
  obtain cds hs log_p1 where pq: "p = (cds, hs, log_p1)" by (cases p) auto
  note p = p [unfolded pq]
  show ?thesis
  proof (cases "nonzero_eos (idxs s) \<noteq> [] \<and> early \<and> length (nonzero_eos (idxs s)) = B * k")
    case True
    then show ?thesis using rest p by (intro Break [of cds hs log_p1]) (auto simp: Let_def pq)
  next
    case False
    have r: "rbind (select_topk tk V k B (nonzero_eos (idxs s)) (nll s) log_p1) (\<lambda>sel.
          rbind (record_topk V k B t (map (map snd) sel) (beam s)) (\<lambda>(bm, ys, til).
          Inr (False, s\<lparr>ctx_dicts := cds, h_ts := hs, idxs := ys, tile := til, nll := map (map fst) sel,
                          nll_is_view := False, beam := bm\<rparr>))) = Inr (brk, s')"
      using rest unfolding pq prod.case Let_def if_not_P [OF False] .
    then obtain sel where sel: "select_topk tk V k B (nonzero_eos (idxs s)) (nll s) log_p1 = Inr sel"
      and r2: "rbind (record_topk V k B t (map (map snd) sel) (beam s)) (\<lambda>(bm, ys, til).
          Inr (False, s\<lparr>ctx_dicts := cds, h_ts := hs, idxs := ys, tile := til, nll := map (map fst) sel,
                          nll_is_view := False, beam := bm\<rparr>)) = Inr (brk, s')"
      by (rule rbind_InrE)
    from r2 obtain q where q: "record_topk V k B t (map (map snd) sel) (beam s) = Inr q"
      and r3: "(case q of (bm, ys, til) \<Rightarrow>
          Inr (False, s\<lparr>ctx_dicts := cds, h_ts := hs, idxs := ys, tile := til, nll := map (map fst) sel,
                          nll_is_view := False, beam := bm\<rparr>)) = (Inr (brk, s') :: error + _)"
      by (rule rbind_InrE)
    obtain bm ys til where [simp]: "q = (bm, ys, til)" by (cases q) auto
    show ?thesis using False p sel q r3 by (intro Continue [of cds hs log_p1 sel bm ys til]) auto
  qed
qed

lemma gather_history_Inr:
  assumes "gather_history pdxs hist = Inr h'"
  shows "h' = gathered pdxs hist"
proof (rule nth_equalityI)
  have len: "length h' = length hist"
    and rows: "\<And>i. i < length hist \<Longrightarrow>
        mapM (\<lambda>(r, p). index_select r p) (zip (hist ! i) pdxs) = Inr (h' ! i)"
    using assms by (auto simp: gather_history_def mapM_Inr_iff)
  show "length h' = length (gathered pdxs hist)" using len by (simp add: gathered_def)
  fix i assume "i < length h'"
  then have i: "i < length hist" using len by simp
  have "h' ! i = map (\<lambda>(r, p). map (\<lambda>a. r ! a) p) (zip (hist ! i) pdxs)"
  proof (rule nth_equalityI)
    show "length (h' ! i) = length (map (\<lambda>(r, p). map (\<lambda>a. r ! a) p) (zip (hist ! i) pdxs))"
      using rows [OF i] by (simp add: mapM_Inr_iff)
    fix b assume "b < length (h' ! i)"
    then have b: "b < length (zip (hist ! i) pdxs)" using rows [OF i] by (simp add: mapM_Inr_iff)
    then have "(case zip (hist ! i) pdxs ! b of (r, p) \<Rightarrow> index_select r p) = Inr (h' ! i ! b)"
      using rows [OF i] by (simp add: mapM_Inr_iff)
    then show "h' ! i ! b = map (\<lambda>(r, p). map (\<lambda>a. r ! a) p) (zip (hist ! i) pdxs) ! b"
      using b by (auto simp: index_select_Inr_iff split: prod.splits)
  qed
  then show "h' ! i = gathered pdxs hist ! i" using i by (simp add: gathered_def)
qed

lemma record_topk_Inr:
  assumes "record_topk V k B t flat bm = Inr r"
  shows "t < length bm"
    and "r = (gathered (map (map (\<lambda>f. f div V)) flat) (take t bm)
                @ map (map (\<lambda>f. f mod V)) flat # drop (Suc t) bm,
              concat (map (map (\<lambda>f. f mod V)) flat),
              new_tile k B t (map (map (\<lambda>f. f div V)) flat))"
proof -
  let ?pdxs = "map (map (\<lambda>f. f div V)) flat"
  let ?toks = "map (map (\<lambda>f. f mod V)) flat"
  show t: "t < length bm" using assms by (auto simp: record_topk_def split: if_splits)
  have drop: "drop t (bm[t := ?toks]) = ?toks # drop (Suc t) bm"
    using t by (simp add: drop_update_swap Cons_nth_drop_Suc [symmetric])
  show "r = (gathered ?pdxs (take t bm) @ ?toks # drop (Suc t) bm, concat ?toks, new_tile k B t ?pdxs)"
  proof (cases "t > 0")
    case True
    then have "rbind (gather_history ?pdxs (take t bm))
        (\<lambda>hist. Inr (hist @ ?toks # drop (Suc t) bm, concat ?toks, new_tile k B t ?pdxs)) = Inr r"
      using assms t drop by (simp add: record_topk_def Let_def del: drop_update_cancel)
    then obtain hist where "gather_history ?pdxs (take t bm) = Inr hist"
      and "r = (hist @ ?toks # drop (Suc t) bm, concat ?toks, new_tile k B t ?pdxs)"
      by (auto elim: rbind_InrE)
    then show ?thesis using gather_history_Inr by blast
  next
    case False
    then have "t = 0" by simp
    then show ?thesis using assms t
      by (cases bm) (auto simp: record_topk_def Let_def gathered_def)
  qed
qed

lemma cross_sum_length: "cross_sum B nl lp = Inr scores \<Longrightarrow> length scores = B"
  by (auto simp: cross_sum_def split: if_splits)

lemma topk_length: "is_topk tk \<Longrightarrow> tk k xs = Inr r \<Longrightarrow> length r = k"
  by (rule is_topk_Inr(1))

lemma select_topk_shape:
  assumes "select_topk tk V k B pos nl lp1 = Inr sel" and "is_topk tk"
  shows "length sel = B" and "\<forall>r \<in> set sel. length r = k"
proof -
  from assms obtain lp scores where c: "cross_sum B nl lp = Inr scores"
    and t: "mapM (tk k) scores = Inr sel"
    unfolding select_topk_def by (auto elim!: rbind_InrE)
  show "length sel = B" using c t by (simp add: mapM_Inr_iff cross_sum_length)
  show "\<forall>r \<in> set sel. length r = k"
  proof
    fix r assume "r \<in> set sel"
    then obtain i where "i < length sel" "sel ! i = r" by (auto simp: in_set_conv_nth)
    then have "tk k (scores ! i) = Inr r" using t by (simp add: mapM_Inr_iff)
    with assms(2) show "length r = k" by (rule topk_length)
  qed
qed

lemma gathered_shape:
  assumes "beam_shape B k hist" and "length pdxs = B" and "\<forall>r \<in> set pdxs. length r = k"
  shows "beam_shape B k (gathered pdxs hist)"
  unfolding beam_shape_def
proof (intro ballI conjI)
  fix row assume "row \<in> set (gathered pdxs hist)"
  then obtain row0 where r0: "row0 \<in> set hist"
    and row: "row = map (\<lambda>(r, p). map (\<lambda>a. r ! a) p) (zip row0 pdxs)"
    by (auto simp: gathered_def)
  have "length row0 = B" using r0 assms(1) by (simp add: beam_shape_def)
  then show "length row = B" using row assms(2) by simp
  fix cell assume "cell \<in> set row"
  then obtain r p where "(r, p) \<in> set (zip row0 pdxs)" "cell = map (\<lambda>a. r ! a) p"
    using row by auto
  moreover then have "p \<in> set pdxs" by (auto dest: set_zip_rightD)
  ultimately show "length cell = k" using assms(3) by simp
qed

lemma record_topk_shape:
  assumes "record_topk V k B t flat bm = Inr (bm', ys, til)"
    and "beam_shape B k bm" and "length flat = B" and "\<forall>r \<in> set flat. length r = k"
  shows "beam_shape B k bm'" and "length bm' = length bm"
proof -
  let ?pdxs = "map (map (\<lambda>f. f div V)) flat"
  let ?toks = "map (map (\<lambda>f. f mod V)) flat"
  have t: "t < length bm"
    and bm': "bm' = gathered ?pdxs (take t bm) @ ?toks # drop (Suc t) bm"
    using record_topk_Inr [OF assms(1)] by simp_all
  have "beam_shape B k (take t bm)"
    using assms(2) by (auto simp: beam_shape_def dest: in_set_takeD)
  then have g: "beam_shape B k (gathered ?pdxs (take t bm))"
    using assms(3,4) by (intro gathered_shape) auto
  have d: "beam_shape B k (drop (Suc t) bm)"
    using assms(2) by (auto simp: beam_shape_def dest: in_set_dropD)
  have "length ?toks = B \<and> (\<forall>r \<in> set ?toks. length r = k)" using assms(3,4) by auto
  then show "beam_shape B k bm'" using g d bm' by (auto simp: beam_shape_def)
  show "length bm' = length bm" using t bm' by (simp add: gathered_def)
qed

lemma step_inv:
  assumes "step tk ds V u k supp early B t s = Inr (brk, s')" and "loop_inv max_len B k s"
    and "is_topk tk"
  shows "loop_inv max_len B k s'"
  using assms(1)
proof (cases rule: step_InrE)
  case (Break cds hs log_p1)
  then show ?thesis using assms(2) by (simp add: loop_inv_def)
next
  case (Continue cds hs log_p1 sel bm ys til)
  have "length (map (map snd) sel) = B" "\<forall>r \<in> set (map (map snd) sel). length r = k"
    using select_topk_shape [OF Continue(4) assms(3)] by auto
  then have "beam_shape B k bm" "length bm = length (beam s)"
    using record_topk_shape [OF Continue(5)] assms(2) by (auto simp: loop_inv_def)
  then show ?thesis using assms(2) Continue(6) by (simp add: loop_inv_def)
qed

lemma step_loop_inv:
  assumes "step_loop tk ds V u k supp early B ts s = Inr s'" and "loop_inv max_len B k s"
    and "is_topk tk"
  shows "loop_inv max_len B k s'"
  using assms(1,2)
proof (induction ts arbitrary: s)
  case Nil
  then show ?case by simp
next
  case (Cons t ts)
  from Cons.prems(1) obtain r where r: "step tk ds V u k supp early B t s = Inr r"
    and rest: "(case r of (brk, s1) \<Rightarrow> if brk then Inr s1 else step_loop tk ds V u k supp early B ts s1) = Inr s'"
    by (auto elim: rbind_InrE)
  obtain brk s1 where rq: "r = (brk, s1)" by (cases r) auto
  have inv1: "loop_inv max_len B k s1" using r Cons.prems(2) assms(3) unfolding rq by (rule step_inv)
  show ?case
  proof (cases brk)
    case True
    then show ?thesis using rest inv1 by (simp add: rq)
  next
    case False
    then have "step_loop tk ds V u k supp early B ts s1 = Inr s'" using rest by (simp add: rq)
    then show ?thesis using inv1 by (rule Cons.IH)
  qed
qed

lemma init_state_inv:
  assumes "storage_ok max_len mb k sto" and "B \<le> mb"
  shows "loop_inv max_len B k (init_state models ds enc_args B sto batch)"
  using init_state_storage(2) [OF assms, of models ds enc_args batch]
    init_state_storage(3) [OF assms, of models ds enc_args batch]
  by (simp add: loop_inv_def beam_shape_def)

lemma put_eos_shape:
  assumes "put_eos max_len e bm = Inr bm'" and "beam_shape B k bm"
  shows "beam_shape B k bm'" and "length bm' = length bm"
proof -
  have m: "0 < max_len" "max_len \<le> length bm"
    and bm': "bm' = bm[max_len - 1 := map (map (\<lambda>_. e)) (bm ! (max_len - 1))]"
    using assms(1) by (auto simp: put_eos_def split: if_splits)
  show "length bm' = length bm" using bm' by simp
  have "bm ! (max_len - 1) \<in> set bm" using m by simp
  then have "length (bm ! (max_len - 1)) = B" "\<forall>r \<in> set (bm ! (max_len - 1)). length r = k"
    using assms(2) by (auto simp: beam_shape_def)
  then have "length (map (map (\<lambda>_. e)) (bm ! (max_len - 1))) = B
     \<and> (\<forall>r \<in> set (map (map (\<lambda>_. e)) (bm ! (max_len - 1))). length r = k)" by auto
  moreover have "set bm' \<subseteq> insert (map (map (\<lambda>_. e)) (bm ! (max_len - 1))) (set bm)"
    unfolding bm' by (rule set_update_subset_insert)
  ultimately show "beam_shape B k bm'"
    using assms(2) unfolding beam_shape_def by blast
qed

lemma write_view_shape:
  assumes "beam_shape B k bm" and "length bm = length st" and "B \<le> mb"
    and "\<forall>row \<in> set st. length row = mb \<and> (\<forall>cell \<in> set row. length cell = k)"
  shows "length (write_view B bm st) = length st"
    and "\<forall>row \<in> set (write_view B bm st). length row = mb \<and> (\<forall>cell \<in> set row. length cell = k)"
proof -
  show "length (write_view B bm st) = length st" using assms(2) by (simp add: write_view_def)
  show "\<forall>row \<in> set (write_view B bm st). length row = mb \<and> (\<forall>cell \<in> set row. length cell = k)"
  proof
    fix row assume "row \<in> set (write_view B bm st)"
    then obtain v r where vr: "(v, r) \<in> set (zip bm st)" and row: "row = v @ drop B r"
      by (auto simp: write_view_def)
    have v: "v \<in> set bm" and r: "r \<in> set st"
      using vr by (auto dest: set_zip_leftD set_zip_rightD)
    have "length v = B" "\<forall>c \<in> set v. length c = k" using v assms(1) by (auto simp: beam_shape_def)
    moreover have "length r = mb" "\<forall>c \<in> set r. length c = k" using r assms(4) by auto
    ultimately show "length row = mb \<and> (\<forall>cell \<in> set row. length cell = k)"
      using row assms(3) by (auto dest: in_set_dropD)
  qed
qed

lemma zero_view_shape:
  assumes "\<forall>row \<in> set st. length row = mb \<and> (\<forall>cell \<in> set row. length cell = k)"
  shows "\<forall>row \<in> set (zero_view B st). length row = mb \<and> (\<forall>cell \<in> set row. length cell = k)"
    and "length (zero_view B st) = length st"
  using assms by (auto simp: zero_view_def dest: in_set_takeD in_set_dropD)

lemma div_nll_zero:
  assumes "div_nll (replicate B [0]) lp = Inr nl"
  shows "map hd nl = replicate B 0"
proof -
  have sh: "map length (replicate B [0::real]) = map length lp"
    and nl: "nl = map2 (map2 (/)) (replicate B [0]) lp"
    using assms by (auto simp: div_nll_def split: if_splits)
  have len: "length lp = B" using arg_cong [OF sh, of length] by simp
  show ?thesis
  proof (rule nth_equalityI)
    show "length (map hd nl) = length (replicate B (0::real))" using nl len by simp
    fix i assume "i < length (map hd nl)"
    then have i: "i < B" using nl len by simp
    then have "length (lp ! i) = 1" using arg_cong [OF sh, of "\<lambda>xs. xs ! i"] len by simp
    then obtain x where "lp ! i = [x]" by (cases "lp ! i") auto
    then show "map hd nl ! i = replicate B 0 ! i" using i nl len by simp
  qed
qed

lemma finish_storage_ok:
  assumes "finish tk vocab max_len lp_alpha k B sto s = Inr (sto', sents)"
    and "loop_inv max_len B k s" and "B \<le> mb"
    and "storage_ok max_len mb k sto"
  shows "storage_ok max_len mb k sto'"
  using assms(1)
proof (rule finish_InrE)
  fix bm nl sel hyps
  assume p: "put_eos max_len (eos vocab) (beam s) = Inr bm"
    and d: "div_nll (nll s) (normalizer lp_alpha B k bm) = Inr nl"
    and r: "(sto', sents) = (\<lparr>beam_storage = write_view B bm (beam_storage sto),
               nll_storage = (if nll_is_view s then map hd nl @ drop B (nll_storage sto)
                              else nll_storage sto)\<rparr>,
              list_of_idxs_to_sents vocab hyps)"
  have bs: "beam_shape B k bm" "length bm = max_len"
    using put_eos_shape [OF p] assms(2) by (auto simp: loop_inv_def)
  have st: "length (beam_storage sto) = max_len"
    "\<forall>row \<in> set (beam_storage sto). length row = mb \<and> (\<forall>cell \<in> set row. length cell = k)"
    "nll_storage sto = replicate mb 0"
    using assms(4) by (auto simp: storage_ok_def)
  have w: "length (write_view B bm (beam_storage sto)) = max_len"
    "\<forall>row \<in> set (write_view B bm (beam_storage sto)). length row = mb \<and> (\<forall>cell \<in> set row. length cell = k)"
    using write_view_shape [OF bs(1) _ assms(3) st(2)] bs(2) st(1) by auto
  have n: "(if nll_is_view s then map hd nl @ drop B (nll_storage sto) else nll_storage sto)
           = replicate mb 0"
  proof (cases "nll_is_view s")
    case True
    then have "nll s = replicate B [0]" using assms(2) by (simp add: loop_inv_def)
    then have "map hd nl = replicate B 0" using d div_nll_zero by simp
    then show ?thesis using True st(3) assms(3)
      by (simp add: replicate_add [symmetric])
  next
    case False
    then show ?thesis using st(3) by simp
  qed
  show ?thesis using r w n by (simp add: storage_ok_def)
qed

lemma map_sum_rbind: "map_sum id g (rbind m f) = rbind m (\<lambda>x. map_sum id g (f x))"
  by (cases m) (simp_all add: rbind_def)

lemma finish_sents:
  "map_sum id snd (finish tk vocab max_len lp_alpha k B sto1 s)
 = map_sum id snd (finish tk vocab max_len lp_alpha k B sto2 s)"
  by (simp add: finish_def map_sum_rbind Let_def)

lemma decode_batch_storage_ok:
  assumes "decode_batch tk models ds vocab enc_args mb k max_len lp_alpha supp early sto batch
             = Inr (sto', sents)"
    and "storage_ok max_len mb k sto" and "is_topk tk"
  shows "storage_ok max_len mb k sto'"
  using assms(1)
proof (rule decode_batch_InrE)
  fix s
  assume le: "size_b batch \<le> mb"
    and loop: "step_loop tk ds (n_vocab vocab) (unk vocab) k supp early (size_b batch) [0..<max_len]
           (init_state models ds enc_args (size_b batch) sto batch) = Inr s"
    and fin: "finish tk vocab max_len lp_alpha k (size_b batch)
           (sto\<lparr>beam_storage := zero_view (size_b batch) (beam_storage sto)\<rparr>) s = Inr (sto', sents)"
  have "loop_inv max_len (size_b batch) k (init_state models ds enc_args (size_b batch) sto batch)"
    using assms(2) le by (rule init_state_inv)
  with loop have inv: "loop_inv max_len (size_b batch) k s" using assms(3) by (rule step_loop_inv)
  have "storage_ok max_len mb k (sto\<lparr>beam_storage := zero_view (size_b batch) (beam_storage sto)\<rparr>)"
    using assms(2) zero_view_shape [of "beam_storage sto" mb k "size_b batch"]
    by (simp add: storage_ok_def)
  with fin inv le show ?thesis by (rule finish_storage_ok)
qed

lemma decode_batch_sents:
  assumes "storage_ok max_len mb k sto"
  shows "map_sum id snd (decode_batch tk models ds vocab enc_args mb k max_len lp_alpha supp early sto batch)
       = map_sum id snd (decode_batch tk models ds vocab enc_args mb k max_len lp_alpha supp early
                           (fresh_storage max_len mb k) batch)"
proof (cases "size_b batch \<le> mb")
  case True
  let ?B = "size_b batch"
  let ?loop = "\<lambda>sto. step_loop tk ds (n_vocab vocab) (unk vocab) k supp early ?B [0..<max_len]
                       (init_state models ds enc_args ?B sto batch)"
  let ?fin = "\<lambda>sto x. map_sum id snd (finish tk vocab max_len lp_alpha k ?B
                 (sto\<lparr>beam_storage := zero_view ?B (beam_storage sto)\<rparr>) x)"
  have e1: "init_state models ds enc_args ?B sto batch
      = init_state models ds enc_args ?B (fresh_storage max_len mb k) batch"
    using assms True by (rule init_state_storage(1))
  have e2: "?fin sto = ?fin (fresh_storage max_len mb k)"
    by (rule ext) (rule finish_sents)
  have "map_sum id snd (decode_batch tk models ds vocab enc_args mb k max_len lp_alpha supp early sto batch)
      = rbind (?loop sto) (?fin sto)"
    using True by (simp add: decode_batch_def Let_def map_sum_rbind)
  also have "\<dots> = rbind (?loop (fresh_storage max_len mb k)) (?fin (fresh_storage max_len mb k))"
    by (simp only: e1 e2)
  also have "\<dots> = map_sum id snd (decode_batch tk models ds vocab enc_args mb k max_len lp_alpha supp
                        early (fresh_storage max_len mb k) batch)"
    using True by (simp add: decode_batch_def Let_def map_sum_rbind)
  finally show ?thesis .
next
  case False
  then show ?thesis by (simp add: decode_batch_def Let_def)
qed

lemma decode_batches_apart:
  assumes "storage_ok max_len mb k sto" and "is_topk tk"
  shows "decode_batches (decode_batch tk models ds vocab enc_args mb k max_len lp_alpha supp early) sto bs acc
       = rbind (mapM (\<lambda>b. rbind (decode_batch tk models ds vocab enc_args mb k max_len lp_alpha supp early
                                     (fresh_storage max_len mb k) b)
                              (\<lambda>(sto', sents). Inr sents)) bs)
               (\<lambda>ss. Inr (acc @ concat ss))"
  using assms(1)
proof (induction bs arbitrary: sto acc)
  case Nil
  then show ?case by (simp add: rbind_def)
next
  case (Cons b bs)
  let ?f = "decode_batch tk models ds vocab enc_args mb k max_len lp_alpha supp early"
  have eq: "map_sum id snd (?f sto b) = map_sum id snd (?f (fresh_storage max_len mb k) b)"
    using Cons.prems by (rule decode_batch_sents)
  show ?case
  proof (cases "?f sto b")
    case (Inl e)
    then have "?f (fresh_storage max_len mb k) b = Inl e"
      using eq by (cases "?f (fresh_storage max_len mb k) b") simp_all
    then show ?thesis using Inl by (simp add: rbind_def)
  next
    case (Inr r)
    obtain sto' sents where r: "r = (sto', sents)" by (cases r) auto
    obtain sto2 where f2: "?f (fresh_storage max_len mb k) b = Inr (sto2, sents)"
      using eq Inr r by (cases "?f (fresh_storage max_len mb k) b") auto
    have ok: "storage_ok max_len mb k sto'"
      using Inr Cons.prems assms(2) unfolding r by (rule decode_batch_storage_ok)
    show ?thesis
      using Inr r f2 Cons.IH [OF ok, of "acc @ sents"]
      by (simp add: rbind_def split: sum.splits)
  qed
qed

text \<open>
  Claim C10. On the storage that \<open>beam_search\<close> allocates, decoding the batches one
  after the other on the reused storage gives what decoding every batch on its own on
  the fresh storage gives, error or results. The storage keeps its shape and its zero
  scores from batch to batch, and on such a storage every batch starts its step loop
  with a zero beam tensor and zero running scores. This holds for every top-k that
  torch's contract admits.
\<close>

theorem batches_independent:
  assumes "alloc max_len mb k = Inr sto0" and "is_topk tk"
  shows "decode_batches (decode_batch tk models ds vocab enc_args mb (nat k) (nat max_len) lp_alpha supp early)
           sto0 bs []
       = decode_apart (decode_batch tk models ds vocab enc_args mb (nat k) (nat max_len) lp_alpha supp early)
           sto0 bs
    \<and> storage_ok (nat max_len) mb (nat k) sto0
    \<and> (\<forall>sto b. storage_ok (nat max_len) mb (nat k) sto \<and> size_b b \<le> mb \<longrightarrow>
           nll (init_state models ds enc_args (size_b b) sto b) = replicate (size_b b) [0] \<and>
           beam (init_state models ds enc_args (size_b b) sto b)
             = replicate (nat max_len) (replicate (size_b b) (replicate (nat k) 0)) \<and>
           (\<forall>sto' sents.
              decode_batch tk models ds vocab enc_args mb (nat k) (nat max_len) lp_alpha supp early sto b
                = Inr (sto', sents) \<longrightarrow> storage_ok (nat max_len) mb (nat k) sto'))"
proof (intro conjI)
  have s0: "sto0 = fresh_storage (nat max_len) mb (nat k)" using assms(1) by (rule alloc_fresh)
  show ok: "storage_ok (nat max_len) mb (nat k) sto0" unfolding s0 by (rule fresh_storage_ok)
  show "decode_batches (decode_batch tk models ds vocab enc_args mb (nat k) (nat max_len) lp_alpha supp early)
           sto0 bs []
       = decode_apart (decode_batch tk models ds vocab enc_args mb (nat k) (nat max_len) lp_alpha supp early)
           sto0 bs"
    using decode_batches_apart [OF ok assms(2), of models ds vocab enc_args lp_alpha supp early bs "[]"]
    by (simp add: decode_apart_def s0)
  show "\<forall>sto b. storage_ok (nat max_len) mb (nat k) sto \<and> size_b b \<le> mb \<longrightarrow>
           nll (init_state models ds enc_args (size_b b) sto b) = replicate (size_b b) [0] \<and>
           beam (init_state models ds enc_args (size_b b) sto b)
             = replicate (nat max_len) (replicate (size_b b) (replicate (nat k) 0)) \<and>
           (\<forall>sto' sents.
              decode_batch tk models ds vocab enc_args mb (nat k) (nat max_len) lp_alpha supp early sto b
                = Inr (sto', sents) \<longrightarrow> storage_ok (nat max_len) mb (nat k) sto')"
  proof (intro allI impI conjI)
    fix sto :: storage and b :: "'a batch"
    assume a: "storage_ok (nat max_len) mb (nat k) sto \<and> size_b b \<le> mb"
    then have o: "storage_ok (nat max_len) mb (nat k) sto" and le: "size_b b \<le> mb" by simp_all
    show "nll (init_state models ds enc_args (size_b b) sto b) = replicate (size_b b) [0]"
      using o le by (rule init_state_storage(2))
    show "beam (init_state models ds enc_args (size_b b) sto b)
             = replicate (nat max_len) (replicate (size_b b) (replicate (nat k) 0))"
      using o le by (rule init_state_storage(3))
    fix sto' sents
    assume "decode_batch tk models ds vocab enc_args mb (nat k) (nat max_len) lp_alpha supp early sto b
                = Inr (sto', sents)"
    then show "storage_ok (nat max_len) mb (nat k) sto'"
      using o assms(2) by (rule decode_batch_storage_ok)
  qed
qed

theorem batches_independent_witness:
  "alloc 4 2 2 = Inr (fresh_storage 4 2 2) \<and>
   decode_batches (decode_batch topk [toy_model vocab6 table_ab] [toy_dec table_ab] vocab6 None 2 2 4 0 False True)
     (fresh_storage 4 2 2) (batches loader_ab) [] = Inr [''a'', ''a b'', ''b''] \<and>
   decode_apart (decode_batch topk [toy_model vocab6 table_ab] [toy_dec table_ab] vocab6 None 2 2 4 0 False True)
     (fresh_storage 4 2 2) (batches loader_ab) = Inr [''a'', ''a b'', ''b'']"
proof -
  have a: "alloc 4 2 2 = Inr (fresh_storage 4 2 2)"
    by (simp add: alloc_def fresh_storage_def)
  have d: "decode_batches (decode_batch topk [toy_model vocab6 table_ab] [toy_dec table_ab] vocab6 None 2 2 4 0 False True)
     (fresh_storage 4 2 2) (batches loader_ab) [] = Inr [''a'', ''a b'', ''b'']"
    by code_simp
  show ?thesis
    using batches_independent [OF a topk_is_topk, of "[toy_model vocab6 table_ab]" "[toy_dec table_ab]"
        vocab6 None 0 False True "batches loader_ab"] a d
    by simp
qed

section \<open>Pinning of finished slots\<close>

lemma topk_Inr:
  assumes "is_topk tk" and "tk k xs = Inr r"
  shows "length r = k" and "k \<le> length xs"
    and "\<And>p. p \<in> set r \<Longrightarrow> snd p < length xs \<and> fst p = xs ! snd p"
  using is_topk_Inr(1,2,4) [OF assms] by blast+

lemma well_shaped_nth:
  "well_shaped rows V lp \<Longrightarrow> i < rows \<Longrightarrow> length (lp ! i) = V"
  by (simp add: well_shaped_def list_all_length)

lemma well_shaped_length: "well_shaped rows V lp \<Longrightarrow> length lp = rows"
  by (simp add: well_shaped_def)

lemma well_shapedI:
  "length lp = rows \<Longrightarrow> (\<And>i. i < rows \<Longrightarrow> length (lp ! i) = V) \<Longrightarrow> well_shaped rows V lp"
  by (simp add: well_shaped_def list_all_length)

lemma add_tensors_shaped:
  "well_shaped rows V a \<Longrightarrow> well_shaped rows V b \<Longrightarrow> well_shaped rows V (add_tensors a b)"
  by (simp add: well_shaped_def add_tensors_def list_all_length)

lemma foldl_add_tensors_shaped:
  "well_shaped rows V x \<Longrightarrow> list_all (well_shaped rows V) xs \<Longrightarrow>
   well_shaped rows V (foldl add_tensors x xs)"
  by (induction xs arbitrary: x) (simp_all add: add_tensors_shaped)

lemma sum_log_ps_shaped:
  "sum_log_ps rows V log_ps = Inr lp \<Longrightarrow> well_shaped rows V lp"
  by (cases log_ps) (auto simp: sum_log_ps_def foldl_add_tensors_shaped split: if_splits)

lemma suppress_shaped:
  "suppress u lp = Inr lp' \<Longrightarrow> well_shaped rows V lp \<Longrightarrow> well_shaped rows V lp'"
  by (auto simp: suppress_def well_shaped_def list_all_length split: if_splits)

lemma index_fill_rows_nth:
  assumes "index_fill_rows lp pos v = Inr lp'"
  shows "length lp' = length lp"
    and "\<And>i. i < length lp \<Longrightarrow> lp' ! i = (if i \<in> set pos then map (\<lambda>_. v) (lp ! i) else lp ! i)"
  using assms by (auto simp: index_fill_rows_def split: if_splits)

lemma index_fill_flat_nth:
  assumes "index_fill_flat V lp fs v = Inr lp'"
  shows "length lp' = length lp"
    and "\<And>i. i < length lp \<Longrightarrow> length (lp' ! i) = length (lp ! i)"
    and "\<And>i j. i < length lp \<Longrightarrow> j < length (lp ! i) \<Longrightarrow>
           lp' ! i ! j = (if i * V + j \<in> set fs then v else lp ! i ! j)"
  using assms by (auto simp: index_fill_flat_def split: if_splits)

lemma pin_eos_shaped:
  assumes "pin_eos V pos lp = Inr lp'" and "well_shaped rows V lp"
  shows "well_shaped rows V lp'"
proof -
  obtain lp1 where 1: "index_fill_rows lp pos inf_const = Inr lp1"
    and 2: "index_fill_flat V lp1 (map (\<lambda>p. p * V + 2) pos) 0 = Inr lp'"
    using assms(1) by (auto simp: pin_eos_def rbind_Inr_iff)
  have "well_shaped rows V lp1"
    using index_fill_rows_nth [OF 1] assms(2)
    by (intro well_shapedI) (auto simp: well_shaped_length well_shaped_nth)
  then show ?thesis
    using index_fill_flat_nth(1,2) [OF 2]
    by (intro well_shapedI) (auto simp: well_shaped_length well_shaped_nth)
qed

lemma predict_InrE:
  assumes "predict ds V u supp s = Inr (cds, hs, log_p1)"
  obtains outs log_p0 where "mapM (\<lambda>cd. tile_ctx_dict cd (tile s)) (ctx_dicts s) = Inr cds"
    and "call_f_nexts ds cds (h_ts s) (idxs s) (tile s) = Inr outs"
    and "hs = map snd outs"
    and "sum_log_ps (length (idxs s)) V (map fst outs) = Inr log_p0"
    and "(if supp then suppress u log_p0 else Inr log_p0) = Inr log_p1"
proof -
  from assms obtain cds' where 1: "mapM (\<lambda>cd. tile_ctx_dict cd (tile s)) (ctx_dicts s) = Inr cds'"
    and a: "rbind (call_f_nexts ds cds' (h_ts s) (idxs s) (tile s)) (\<lambda>outs.
     rbind (sum_log_ps (length (idxs s)) V (map fst outs)) (\<lambda>log_p0.
     rbind (if supp then suppress u log_p0 else Inr log_p0) (\<lambda>log_p1.
     Inr (cds', map snd outs, log_p1)))) = Inr (cds, hs, log_p1)"
    unfolding predict_def by (rule rbind_InrE)
  from a obtain outs where 2: "call_f_nexts ds cds' (h_ts s) (idxs s) (tile s) = Inr outs"
    and b: "rbind (sum_log_ps (length (idxs s)) V (map fst outs)) (\<lambda>log_p0.
     rbind (if supp then suppress u log_p0 else Inr log_p0) (\<lambda>log_p1.
     Inr (cds', map snd outs, log_p1))) = Inr (cds, hs, log_p1)"
    by (rule rbind_InrE)
  from b obtain log_p0 where 3: "sum_log_ps (length (idxs s)) V (map fst outs) = Inr log_p0"
    and c: "rbind (if supp then suppress u log_p0 else Inr log_p0) (\<lambda>log_p1.
     Inr (cds', map snd outs, log_p1)) = Inr (cds, hs, log_p1)"
    by (rule rbind_InrE)
  from c obtain lp where 4: "(if supp then suppress u log_p0 else Inr log_p0) = Inr lp"
    and d: "Inr (cds', map snd outs, lp) = (Inr (cds, hs, log_p1) :: error + _)"
    by (rule rbind_InrE)
  from d have e: "cds' = cds" "hs = map snd outs" "lp = log_p1" by simp_all
  show ?thesis using 1 2 3 4 unfolding e(1,3) using e(2) by (intro that [of outs log_p0])
qed

lemma predict_shaped:
  assumes "predict ds V u supp s = Inr (cds, hs, log_p1)"
  shows "well_shaped (length (idxs s)) V log_p1"
  using assms
proof (rule predict_InrE)
  fix outs :: "(real list list \<times> 'h list) list" and log_p0
  assume 1: "sum_log_ps (length (idxs s)) V (map fst outs) = Inr log_p0"
    and 2: "(if supp then suppress u log_p0 else Inr log_p0) = Inr log_p1"
  have "well_shaped (length (idxs s)) V log_p0" using 1 by (rule sum_log_ps_shaped)
  then show ?thesis using 2 suppress_shaped by (auto split: if_splits)
qed

lemma nonzero_eos_set: "set (nonzero_eos ys) = {i. i < length ys \<and> ys ! i = 2}"
  by (auto simp: nonzero_eos_def)

lemma flat_eos_iff:
  assumes "2 < (V::nat)" and "j < V"
  shows "i * V + j \<in> set (map (\<lambda>p. p * V + 2) pos) \<longleftrightarrow> i \<in> set pos \<and> j = 2"
proof
  assume "i * V + j \<in> set (map (\<lambda>p. p * V + 2) pos)"
  then obtain p where p: "p \<in> set pos" "i * V + j = p * V + 2" by auto
  have "(i * V + j) div V = i" "(i * V + j) mod V = j" using assms by simp_all
  moreover have "(p * V + 2) div V = p" "(p * V + 2) mod V = 2"
    using assms(1) div_mult_self3 [of V p 2] mod_mult_self3 [of p V 2] by simp_all
  ultimately show "i \<in> set pos \<and> j = 2" using p by metis
next
  assume "i \<in> set pos \<and> j = 2"
  then show "i * V + j \<in> set (map (\<lambda>p. p * V + 2) pos)" by auto
qed

lemma pin_eos_rows:
  assumes "well_shaped (length ys) V lp" and "2 < V"
  shows "\<exists>lp'. pin_eos V (nonzero_eos ys) lp = Inr lp' \<and> well_shaped (length ys) V lp' \<and>
           (\<forall>p < length ys. lp' ! p = (if ys ! p = 2 then (replicate V inf_const)[2 := 0] else lp ! p))"
proof -
  let ?pos = "nonzero_eos ys"
  let ?lp1 = "map (\<lambda>(i, r). if i \<in> set ?pos then map (\<lambda>_. inf_const) r else r) (zip [0..<length lp] lp)"
  let ?fs = "map (\<lambda>p. p * V + 2) ?pos"
  let ?lp' = "map (\<lambda>(i, r). map (\<lambda>(j, x). if i * V + j \<in> set ?fs then 0 else x) (zip [0..<length r] r))
                  (zip [0..<length ?lp1] ?lp1)"
  have len: "length lp = length ys" using assms(1) by (rule well_shaped_length)
  have rows: "\<And>i. i < length ys \<Longrightarrow> length (lp ! i) = V"
    using assms(1) by (rule well_shaped_nth)
  have 1: "index_fill_rows lp ?pos inf_const = Inr ?lp1"
    using len by (simp add: index_fill_rows_def list_all_iff nonzero_eos_set)
  have "\<And>f. f \<in> set ?fs \<Longrightarrow> f < length ?lp1 * V"
  proof -
    fix f assume "f \<in> set ?fs"
    then obtain p where p: "p < length ys" "f = p * V + 2" by (auto simp: nonzero_eos_set)
    have "p * V + 2 < p * V + V" using assms(2) by simp
    also have "\<dots> = Suc p * V" by simp
    also have "\<dots> \<le> length ys * V" using p(1) by (intro mult_le_mono1) simp
    finally show "f < length ?lp1 * V" using p len by simp
  qed
  then have 2: "index_fill_flat V ?lp1 ?fs 0 = Inr ?lp'"
    by (simp add: index_fill_flat_def list_all_iff)
  have pin: "pin_eos V ?pos lp = Inr ?lp'"
    using 1 2 by (simp add: pin_eos_def rbind_def)
  have nth: "\<forall>p < length ys. ?lp' ! p = (if ys ! p = 2 then (replicate V inf_const)[2 := 0] else lp ! p)"
  proof (intro allI impI)
    fix p assume p: "p < length ys"
    have r: "length (lp ! p) = V" using p by (rule rows)
    have l1: "?lp1 ! p = (if ys ! p = 2 then replicate V inf_const else lp ! p)"
      using p len r by (simp add: nonzero_eos_set map_replicate_const)
    have "?lp' ! p = map (\<lambda>(j, x). if p * V + j \<in> set ?fs then 0 else x) (zip [0..<length (?lp1 ! p)] (?lp1 ! p))"
      using p len by simp
    also have "\<dots> = (if ys ! p = 2 then (replicate V inf_const)[2 := 0] else lp ! p)"
    proof (rule nth_equalityI)
      show "length (map (\<lambda>(j, x). if p * V + j \<in> set ?fs then 0 else x) (zip [0..<length (?lp1 ! p)] (?lp1 ! p)))
          = length (if ys ! p = 2 then (replicate V inf_const)[2 := 0] else lp ! p)"
        using l1 r by simp
      fix j assume "j < length (map (\<lambda>(j, x). if p * V + j \<in> set ?fs then 0 else x) (zip [0..<length (?lp1 ! p)] (?lp1 ! p)))"
      then have j: "j < V" using l1 r by (simp split: if_splits)
      have mem: "p * V + j \<in> set ?fs \<longleftrightarrow> ys ! p = 2 \<and> j = 2"
        using flat_eos_iff [OF assms(2) j, of p ?pos] p by (simp add: nonzero_eos_set)
      have lj: "length (?lp1 ! p) = V" using l1 r by simp
      have "map (\<lambda>(j, x). if p * V + j \<in> set ?fs then 0 else x) (zip [0..<length (?lp1 ! p)] (?lp1 ! p)) ! j
          = (if p * V + j \<in> set ?fs then 0 else ?lp1 ! p ! j)"
        using j lj by simp
      also have "\<dots> = (if ys ! p = 2 then (replicate V inf_const)[2 := 0] else lp ! p) ! j"
        using mem l1 j assms(2) by (auto simp: nth_list_update)
      finally show "map (\<lambda>(j, x). if p * V + j \<in> set ?fs then 0 else x) (zip [0..<length (?lp1 ! p)] (?lp1 ! p)) ! j
          = (if ys ! p = 2 then (replicate V inf_const)[2 := 0] else lp ! p) ! j" .
    qed
    finally show "?lp' ! p = (if ys ! p = 2 then (replicate V inf_const)[2 := 0] else lp ! p)" .
  qed
  have "well_shaped (length ys) V ?lp'" using pin assms(1) by (rule pin_eos_shaped)
  then show ?thesis using pin nth by blast
qed

lemma block_index_less:
  assumes "b < (B::nat)" and "j < w"
  shows "b * w + j < B * w"
proof -
  have "b * w + j < b * w + w" using assms(2) by simp
  also have "\<dots> = Suc b * w" by simp
  also have "\<dots> \<le> B * w" using assms(1) by (intro mult_le_mono1) simp
  finally show ?thesis .
qed

lemma cross_sum_Inr:
  assumes "cross_sum B nl lp = Inr scores" and "\<forall>r \<in> set nl. length r = w"
    and "well_shaped (B * w) V lp" and "b < B"
  shows "length (scores ! b) = w * V"
    and "\<And>j v. j < w \<Longrightarrow> v < V \<Longrightarrow> scores ! b ! (j * V + v) = nl ! b ! j + lp ! (b * w + j) ! v"
proof -
  have len: "length nl = B"
    and sc: "scores = map (\<lambda>b. concat (map (\<lambda>j. map (\<lambda>p. nl ! b ! j + p)
                                              (lp ! (b * length (nl ! b) + j)))
                                      [0..<length (nl ! b)])) [0..<B]"
    using assms(1) by (auto simp: cross_sum_def split: if_splits)
  have w: "length (nl ! b) = w" using assms(2,4) len by simp
  let ?xss = "map (\<lambda>j. map (\<lambda>p. nl ! b ! j + p) (lp ! (b * w + j))) [0..<w]"
  have sb: "scores ! b = concat ?xss" using sc assms(4) w by simp
  have rect: "\<forall>r \<in> set ?xss. length r = V"
  proof
    fix r assume "r \<in> set ?xss"
    then obtain j where j: "j < w" "r = map (\<lambda>p. nl ! b ! j + p) (lp ! (b * w + j))" by auto
    have "b * w + j < B * w" using assms(4) j(1) by (rule block_index_less)
    then have "length (lp ! (b * w + j)) = V" using assms(3) by (simp add: well_shaped_nth)
    then show "length r = V" using j(2) by simp
  qed
  show "length (scores ! b) = w * V"
    using length_concat_rect [OF rect] sb by simp
  fix j v assume j: "j < w" and v: "v < V"
  have "j * V + v < length ?xss * V" using block_index_less [OF j v] by simp
  then have "concat ?xss ! (j * V + v) = ?xss ! ((j * V + v) div V) ! ((j * V + v) mod V)"
    using rect by (intro concat_nth_rect)
  moreover have "(j * V + v) div V = j" "(j * V + v) mod V = v" using v by simp_all
  moreover have "b * w + j < B * w" using assms(4) j by (rule block_index_less)
  then have "length (lp ! (b * w + j)) = V" using assms(3) by (simp add: well_shaped_nth)
  ultimately show "scores ! b ! (j * V + v) = nl ! b ! j + lp ! (b * w + j) ! v"
    using sb j v by simp
qed

lemma cross_sum_rows:
  assumes "cross_sum B nl lp = Inr scores" and "\<forall>r \<in> set nl. length r = w" and "0 < B"
  shows "length lp = B * w" and "length nl = B"
proof -
  have len: "length nl = B" and all: "list_all (\<lambda>r. length lp = B * length r) nl"
    using assms(1) by (auto simp: cross_sum_def split: if_splits)
  show "length nl = B" by (rule len)
  have "nl ! 0 \<in> set nl" using len assms(3) by simp
  then show "length lp = B * w" using all assms(2) by (auto simp: list_all_iff)
qed

lemma select_topk_InrE:
  assumes "select_topk tk V k B pos nl log_p1 = Inr sel"
  obtains lp scores where "(if pos \<noteq> [] then pin_eos V pos log_p1 else Inr log_p1) = Inr lp"
    and "cross_sum B nl lp = Inr scores" and "mapM (tk k) scores = Inr sel"
proof -
  from assms obtain lp where 1: "(if pos \<noteq> [] then pin_eos V pos log_p1 else Inr log_p1) = Inr lp"
    and a: "rbind (cross_sum B nl lp) (\<lambda>scores. mapM (tk k) scores) = Inr sel"
    unfolding select_topk_def by (rule rbind_InrE)
  from a obtain scores where "cross_sum B nl lp = Inr scores" "mapM (tk k) scores = Inr sel"
    by (rule rbind_InrE)
  with 1 show ?thesis by (rule that)
qed

text \<open>
  Claim C4, as the decoder has it. In a step that does not leave the loop, the row of
  log-probabilities of every slot whose current token is 2 is \<open>inf\<close> except for entry
  2, which is 0. Hence a slot of the next step whose \<open>tile\<close> entry points to such a
  finished slot either holds token 2 again with exactly the score of that slot, or
  holds another token with that score plus \<open>inf\<close>. The width of \<open>nll\<close> is 1 at the
  first step and \<open>k\<close> afterwards. This holds for every top-k that torch's contract
  admits.
\<close>

theorem eos_pinning:
  assumes st: "step tk ds V u k supp early B t s = Inr (False, s')"
    and V: "2 < V"
    and w: "\<forall>r \<in> set (nll s). length r = (if t = 0 then 1 else k)"
    and i: "i < B * k"
    and fin: "idxs s ! (tile s' ! i) = 2"
    and ok: "is_topk tk"
  shows "(\<forall>lp. well_shaped (length (idxs s)) V lp \<longrightarrow>
            (\<exists>lp'. pin_eos V (nonzero_eos (idxs s)) lp = Inr lp' \<and>
               (\<forall>p < length (idxs s). idxs s ! p = 2 \<longrightarrow> lp' ! p = (replicate V inf_const)[2 := 0])))
       \<and> tile s' ! i < length (idxs s)
       \<and> ((idxs s' ! i = 2 \<and> concat (nll s') ! i = concat (nll s) ! (tile s' ! i)) \<or>
          (idxs s' ! i \<noteq> 2 \<and> concat (nll s') ! i = concat (nll s) ! (tile s' ! i) + inf_const))"
proof -
  let ?w = "if t = 0 then 1 else k"
  let ?pos = "nonzero_eos (idxs s)"
  have pinned: "\<forall>lp. well_shaped (length (idxs s)) V lp \<longrightarrow>
            (\<exists>lp'. pin_eos V ?pos lp = Inr lp' \<and>
               (\<forall>p < length (idxs s). idxs s ! p = 2 \<longrightarrow> lp' ! p = (replicate V inf_const)[2 := 0]))"
    using pin_eos_rows [OF _ V, of "idxs s"] by fastforce
  have k: "0 < k" using i by (cases k) auto
  have B: "0 < B" using i by (cases B) auto
  have wk: "?w \<le> k" "0 < ?w" using k by auto
  define b where "b = i div k"
  define j where "j = i mod k"
  have b: "b < B" using i k by (simp add: b_def less_mult_imp_div_less)
  have j: "j < k" using k by (simp add: j_def)
  from st show ?thesis
  proof (cases rule: step_InrE)
    case (Break cds hs log_p1)
    then show ?thesis by simp
  next
    case (Continue cds hs log_p1 sel bm ys til)
    have s': "idxs s' = ys" "tile s' = til" "nll s' = map (map fst) sel"
      using Continue(6) by simp_all
    have sh1: "well_shaped (length (idxs s)) V log_p1" using Continue(1) by (rule predict_shaped)
    from Continue(4) obtain lp scores where
      lp: "(if ?pos \<noteq> [] then pin_eos V ?pos log_p1 else Inr log_p1) = Inr lp"
      and cs: "cross_sum B (nll s) lp = Inr scores"
      and tk: "mapM (tk k) scores = Inr sel"
      by (rule select_topk_InrE)
    have shl: "well_shaped (length (idxs s)) V lp"
      using lp sh1 pin_eos_shaped by (auto split: if_splits)
    have lenlp: "length lp = B * ?w" and lennl: "length (nll s) = B"
      using cross_sum_rows [OF cs w B] by simp_all
    then have lenidx: "length (idxs s) = B * ?w" using shl by (simp add: well_shaped_length)
    have shl': "well_shaped (B * ?w) V lp" using shl lenidx by simp
    have lensc: "length scores = B" using cs by (rule cross_sum_length)
    have lensel: "length sel = B" and rowsel: "\<forall>r \<in> set sel. length r = k"
      using select_topk_shape [OF Continue(4) ok] by simp_all
    have tkb: "tk k (scores ! b) = Inr (sel ! b)"
      using tk b lensc by (simp add: mapM_Inr_iff)
    have selb: "length (sel ! b) = k" using rowsel b lensel by simp
    define f where "f = snd (sel ! b ! j)"
    define val where "val = fst (sel ! b ! j)"
    have "sel ! b ! j \<in> set (sel ! b)" using selb j by simp
    then have fv: "f < length (scores ! b)" "val = scores ! b ! f"
      using topk_Inr(3) [OF ok tkb] by (simp_all add: f_def val_def)
    have lrow: "length (scores ! b) = ?w * V" using cross_sum_Inr(1) [OF cs w shl' b] .
    have Vpos: "0 < V" using V by simp
    have anc: "f div V < ?w" using fv(1) lrow Vpos by (simp add: less_mult_imp_div_less)
    have tokl: "f mod V < V" using Vpos by simp
    have val: "val = nll s ! b ! (f div V) + lp ! (b * ?w + f div V) ! (f mod V)"
      using cross_sum_Inr(2) [OF cs w shl' b anc tokl] fv(2) by simp
    \<comment> \<open>what the step recorded\<close>
    let ?flat = "map (map snd) sel"
    let ?pdxs = "map (map (\<lambda>f. f div V)) ?flat"
    let ?toks = "map (map (\<lambda>f. f mod V)) ?flat"
    have rec: "ys = concat ?toks" "til = new_tile k B t ?pdxs"
      using record_topk_Inr(2) [OF Continue(5)] by simp_all
    have shp: "length ?pdxs = B" "\<forall>r \<in> set ?pdxs. length r = k"
      using lensel rowsel by auto
    have "til ! i = ?pdxs ! b ! j + b * (if t \<noteq> 0 then k else 1)"
      using new_tile_nth [OF shp i] rec(2) by (simp add: b_def j_def)
    then have til: "til ! i = b * ?w + f div V"
      using b j lensel selb by (simp add: f_def)
    have sht: "\<forall>r \<in> set ?toks. length r = k" using rowsel by auto
    have "i < length ?toks * k" using i lensel by simp
    then have "concat ?toks ! i = ?toks ! (i div k) ! (i mod k)"
      using sht by (intro concat_nth_rect)
    then have ysi: "ys ! i = f mod V"
      using rec(1) b j lensel selb by (simp add: f_def b_def j_def)
    have shn: "\<forall>r \<in> set (map (map fst) sel). length r = k" using rowsel by auto
    have "i < length (map (map fst) sel) * k" using i lensel by simp
    then have "concat (map (map fst) sel) ! i = map (map fst) sel ! (i div k) ! (i mod k)"
      using shn by (intro concat_nth_rect)
    then have new: "concat (nll s') ! i = val"
      using s'(3) b j lensel selb by (simp add: val_def b_def j_def)
    \<comment> \<open>the parent slot\<close>
    have par: "b * ?w + f div V < B * ?w" using b anc by (rule block_index_less)
    have "b * ?w + f div V < length (nll s) * ?w" using par lennl by simp
    then have "concat (nll s) ! (b * ?w + f div V)
             = nll s ! ((b * ?w + f div V) div ?w) ! ((b * ?w + f div V) mod ?w)"
      using w by (intro concat_nth_rect)
    moreover have "(b * ?w + f div V) div ?w = b" "(b * ?w + f div V) mod ?w = f div V"
      using anc by simp_all
    ultimately have old: "concat (nll s) ! (tile s' ! i) = nll s ! b ! (f div V)"
      using til s'(2) by simp
    have parent: "tile s' ! i < length (idxs s)" using til s'(2) par lenidx by simp
    have eos: "idxs s ! (b * ?w + f div V) = 2" using fin til s'(2) by simp
    then have "b * ?w + f div V \<in> set ?pos" using par lenidx by (simp add: nonzero_eos_set)
    then have "?pos \<noteq> []" by auto
    then have pin: "pin_eos V ?pos log_p1 = Inr lp" using lp by simp
    obtain lp' where "pin_eos V ?pos log_p1 = Inr lp'"
      and "\<forall>p < length (idxs s). lp' ! p = (if idxs s ! p = 2 then (replicate V inf_const)[2 := 0] else log_p1 ! p)"
      using pin_eos_rows [OF sh1 V] by blast
    then have "lp ! (b * ?w + f div V) = (replicate V inf_const)[2 := 0]"
      using pin eos par lenidx by simp
    then have "lp ! (b * ?w + f div V) ! (f mod V) = (if f mod V = 2 then 0 else inf_const)"
      using tokl V by (simp add: nth_list_update)
    then have "concat (nll s') ! i
             = concat (nll s) ! (tile s' ! i) + (if f mod V = 2 then 0 else inf_const)"
      using new val old by simp
    then show ?thesis using pinned parent ysi s'(1) by auto
  qed
qed

theorem eos_pinning_witness:
  "step topk [toy_dec table_pin] 6 3 2 False True 1 1 c4_s1 = Inr (False, pin_s2) \<and>
   idxs c4_s1 ! (tile pin_s2 ! 1) = 2 \<and>
   tile pin_s2 ! 1 < length (idxs c4_s1) \<and>
   idxs pin_s2 ! 1 = 2 \<and> concat (nll pin_s2) ! 1 = concat (nll c4_s1) ! (tile pin_s2 ! 1)"
proof -
  have st: "step topk [toy_dec table_pin] 6 3 2 False True 1 1 c4_s1 = Inr (False, pin_s2)"
    by code_simp
  have V: "(2::nat) < 6" by simp
  have w: "\<forall>r \<in> set (nll c4_s1). length r = (if (1::nat) = 0 then 1 else 2)"
    by (simp add: c4_s1_def)
  have i: "(1::nat) < 1 * 2" by simp
  have fin: "idxs c4_s1 ! (tile pin_s2 ! 1) = 2" by (simp add: c4_s1_def pin_s2_def)
  have tok: "idxs pin_s2 ! 1 = 2" by (simp add: pin_s2_def)
  show ?thesis
    using eos_pinning [OF st V w i fin topk_is_topk] st fin tok by simp
qed

text \<open>
  Claim C4 as stated fails: after step 0 slot 1 holds \<open>eos\<close> with score \<open>-9/4\<close>; after
  step 1 slot 1 holds \<open>b\<close> with score \<open>-9/8\<close>, both slots continue slot 0, and no slot
  holds \<open>eos\<close>.
\<close>

theorem eos_slot_replaced:
  "step topk [toy_dec table_c4] 6 3 2 False True 1 0 c4_s0 = Inr (False, c4_s1) \<and>
   step topk [toy_dec table_c4] 6 3 2 False True 1 1 c4_s1 = Inr (False, c4_s2) \<and>
   idxs c4_s1 ! 1 = 2 \<and> idxs c4_s2 ! 1 = 5 \<and>
   nll c4_s1 ! 0 ! 1 = - (9 / 4) \<and> nll c4_s2 ! 0 ! 1 = - (9 / 8) \<and>
   idxs c4_s2 = [4, 5]"
proof -
  have "step topk [toy_dec table_c4] 6 3 2 False True 1 0 c4_s0 = Inr (False, c4_s1)"
    by code_simp
  moreover have "step topk [toy_dec table_c4] 6 3 2 False True 1 1 c4_s1 = Inr (False, c4_s2)"
    by code_simp
  ultimately show ?thesis by (simp add: c4_s1_def c4_s2_def)
qed

section \<open>Preconditions are not checked\<close>

lemma init_state_vocab:
  "init_state (m # map (\<lambda>x. x\<lparr>trg_vocab := f x\<rparr>) ms) ds enc_args B sto batch
 = init_state (m # ms) ds enc_args B sto batch"
  by (simp add: init_state_def Let_def o_def)

lemma decode_batch_vocab:
  "decode_batch tk (m # map (\<lambda>x. x\<lparr>trg_vocab := f x\<rparr>) ms) ds vocab enc_args mb k max_len lp_alpha supp early
 = decode_batch tk (m # ms) ds vocab enc_args mb k max_len lp_alpha supp early"
  by (intro ext) (simp add: decode_batch_def Let_def init_state_vocab)

text \<open>
  Claim C8, as the decoder has it. \<open>beam_search\<close> checks none of its preconditions
  itself. An empty model list ends the call before any batch with the IndexError of
  \<open>models[0]\<close>; a negative \<open>max_len\<close> ends it with the RuntimeError of the allocation;
  the vocabulary is read from the first model alone, so the result is the same whatever
  vocabularies the other models carry.
\<close>

theorem beam_search_unchecked:
  "beam_search tk T [] dl task_id k max_len lp_alpha supp = Inl IndexError \<and>
   (max_len < 0 \<longrightarrow> beam_search tk T (m # ms) dl None k max_len lp_alpha supp = Inl RuntimeError) \<and>
   beam_search tk T (m # map (\<lambda>x. x\<lparr>trg_vocab := f x\<rparr>) ms) dl None k max_len lp_alpha supp
     = beam_search tk T (m # ms) dl None k max_len lp_alpha supp"
proof (intro conjI impI)
  show "beam_search tk T [] dl task_id k max_len lp_alpha supp = Inl IndexError"
    by (cases task_id) (simp_all add: beam_search_def collect_results_def resolve_def rbind_def Let_def)
  show "beam_search tk T (m # ms) dl None k max_len lp_alpha supp = Inl RuntimeError" if "max_len < 0"
    using that by (simp add: beam_search_def collect_results_def resolve_def rbind_def alloc_def)
  show "beam_search tk T (m # map (\<lambda>x. x\<lparr>trg_vocab := f x\<rparr>) ms) dl None k max_len lp_alpha supp
     = beam_search tk T (m # ms) dl None k max_len lp_alpha supp"
    by (simp add: beam_search_def collect_results_def resolve_def decode_batch_vocab o_def)
qed

theorem beam_search_unchecked_witness:
  "(- 1 :: int) < 0 \<and>
   beam_search topk no_topology [toy_model vocab6 table_ab] loader_ab None 2 (- 1) 0 False = Inl RuntimeError \<and>
   beam_search topk no_topology ([] :: (nat list, nat, nat list, nat list) model list) loader_ab None 2 4 0 False
     = Inl IndexError"
proof -
  have n: "(- 1 :: int) < 0" by simp
  have a: "beam_search topk no_topology ([] :: (nat list, nat, nat list, nat list) model list) loader_ab
      None 2 4 0 False = Inl IndexError"
    by (rule conjunct1 [OF beam_search_unchecked])
  have b: "beam_search topk no_topology [toy_model vocab6 table_ab] loader_ab None 2 (- 1) 0 False
      = Inl RuntimeError"
    by (rule mp [OF conjunct1 [OF conjunct2 [OF beam_search_unchecked]] n])
  show ?thesis using n a b by (intro conjI)
qed

text \<open>
  Claim C8 as stated fails. Two ensembled models with different vocabularies are
  decoded without any error, with the words of the first. \<open>max_len = 0\<close> is accepted
  when the loader yields no batch, and otherwise raises the IndexError of
  \<open>beam[max_len - 1]\<close> after the step loop of the first batch.
\<close>

theorem violations_not_rejected:
  "word_of (trg_vocab (toy_model vocab6 table_ab)) 4 = ''a'' \<and>
   word_of (trg_vocab (toy_model vocab6_caps table_ab)) 4 = ''A'' \<and>
   beam_search topk no_topology [toy_model vocab6 table_ab, toy_model vocab6_caps table_ab] loader_ab
     None 2 4 0 False = Inr [''a b'', ''b'', ''a''] \<and>
   beam_search topk no_topology [toy_model vocab6 table_ab] loader_none None 2 0 0 False = Inr [] \<and>
   beam_search topk no_topology [toy_model vocab6 table_ab] loader_ab None 2 0 0 False = Inl IndexError"
proof -
  have "beam_search topk no_topology [toy_model vocab6 table_ab, toy_model vocab6_caps table_ab] loader_ab
     None 2 4 0 False = Inr [''a b'', ''b'', ''a'']"
    by code_simp
  moreover have "beam_search topk no_topology [toy_model vocab6 table_ab] loader_none None 2 0 0 False = Inr []"
    by code_simp
  moreover have "beam_search topk no_topology [toy_model vocab6 table_ab] loader_ab None 2 0 0 False = Inl IndexError"
    by code_simp
  ultimately show ?thesis
    by (simp add: toy_model_def vocab6_def vocab6_caps_def word6_def word6_caps_def)
qed

section \<open>Early exit\<close>

lemma gathered_slots_by: "gathered pdxs hist = map (slots_by pdxs) hist"
  by (simp add: gathered_def slots_by_def)

lemma length_slots_by: "length (slots_by ps xs) = min (length xs) (length ps)"
  by (simp add: slots_by_def)

lemma slots_by_nth:
  "b < length xs \<Longrightarrow> b < length ps \<Longrightarrow> slots_by ps xs ! b = map (\<lambda>a. xs ! b ! a) (ps ! b)"
  by (simp add: slots_by_def)

lemma permuted_nth:
  assumes "permuted k ps" and "b < length ps"
  shows "length (ps ! b) = k" and "set (ps ! b) = {0..<k}" and "distinct (ps ! b)"
    and "\<And>j. j < k \<Longrightarrow> ps ! b ! j < k"
proof -
  have m: "ps ! b \<in> set ps" using assms(2) by simp
  show l: "length (ps ! b) = k" and s: "set (ps ! b) = {0..<k}"
    using assms(1) m by (auto simp: permuted_def)
  have "card (set (ps ! b)) = length (ps ! b)" using l s by simp
  then show "distinct (ps ! b)" by (rule card_distinct)
  fix j assume "j < k"
  then have "ps ! b ! j \<in> set (ps ! b)" using l by simp
  then show "ps ! b ! j < k" using s by simp
qed

lemma slots_by_const:
  assumes "length ps = B" and "permuted k ps"
  shows "slots_by ps (replicate B (replicate k c)) = replicate B (replicate k c)"
proof (rule nth_equalityI)
  show "length (slots_by ps (replicate B (replicate k c))) = length (replicate B (replicate k c))"
    using assms(1) by (simp add: length_slots_by)
  fix b assume "b < length (slots_by ps (replicate B (replicate k c)))"
  then have b: "b < B" using assms(1) by (simp add: length_slots_by)
  have l: "length (ps ! b) = k" and "set (ps ! b) = {0..<k}"
    using permuted_nth [OF assms(2)] b assms(1) by simp_all
  then have "map (\<lambda>a. replicate k c ! a) (ps ! b) = map (\<lambda>a. c) (ps ! b)"
    by (intro map_cong) simp_all
  then show "slots_by ps (replicate B (replicate k c)) ! b = replicate B (replicate k c) ! b"
    using b assms(1) l by (simp add: slots_by_nth map_replicate_const)
qed

lemma slots_by_comp:
  assumes "length q = B" and "length ps = B" and "length xs = B"
    and "permuted k q" and "permuted k ps"
  shows "slots_by ps (slots_by q xs) = slots_by (slots_by ps q) xs"
    and "permuted k (slots_by ps q)" and "length (slots_by ps q) = B"
proof -
  show len: "length (slots_by ps q) = B" using assms(1,2) by (simp add: length_slots_by)
  show "slots_by ps (slots_by q xs) = slots_by (slots_by ps q) xs"
  proof (rule nth_equalityI)
    show "length (slots_by ps (slots_by q xs)) = length (slots_by (slots_by ps q) xs)"
      using assms(1-3) by (simp add: length_slots_by)
    fix b assume "b < length (slots_by ps (slots_by q xs))"
    then have b: "b < B" using assms(1-3) by (simp add: length_slots_by)
    have lq: "length (q ! b) = k" using permuted_nth(1) [OF assms(4)] b assms(1) by simp
    have sp: "set (ps ! b) = {0..<k}" using permuted_nth(2) [OF assms(5)] b assms(2) by simp
    have "map (\<lambda>a. map (\<lambda>a'. xs ! b ! a') (q ! b) ! a) (ps ! b)
        = map (\<lambda>a. xs ! b ! (q ! b ! a)) (ps ! b)"
      using lq sp by (intro map_cong) simp_all
    then show "slots_by ps (slots_by q xs) ! b = slots_by (slots_by ps q) xs ! b"
      using b assms(1-3) by (simp add: slots_by_nth length_slots_by o_def)
  qed
  show "permuted k (slots_by ps q)"
    unfolding permuted_def
  proof
    fix p assume "p \<in> set (slots_by ps q)"
    then obtain b where b: "b < B" and p: "p = slots_by ps q ! b"
      using len by (auto simp: in_set_conv_nth)
    have pb: "p = map (\<lambda>a. q ! b ! a) (ps ! b)"
      using p b assms(1,2) by (simp add: slots_by_nth)
    have lq: "length (q ! b) = k" and sq: "set (q ! b) = {0..<k}"
      using permuted_nth(1,2) [OF assms(4)] b assms(1) by simp_all
    have lp: "length (ps ! b) = k" and sp: "set (ps ! b) = {0..<k}"
      using permuted_nth(1,2) [OF assms(5)] b assms(2) by simp_all
    have "set p = (\<lambda>a. q ! b ! a) ` {0..<k}" using pb sp by simp
    also have "\<dots> = set (q ! b)" using lq by (auto simp: set_conv_nth)
    finally show "length p = k \<and> set p = {0..<k}" using pb lp sq by simp
  qed
qed

lemma within_inf_slots_by:
  assumes "within_inf nl" and "length ps = length nl" and "permuted k ps"
    and "\<forall>r \<in> set nl. length r = k"
  shows "within_inf (slots_by ps nl)"
  unfolding within_inf_def
proof (intro ballI)
  fix r x y assume r: "r \<in> set (slots_by ps nl)" and x: "x \<in> set r" and y: "y \<in> set r"
  from r obtain b where b: "b < length nl" and rb: "r = slots_by ps nl ! b"
    using assms(2) by (auto simp: in_set_conv_nth length_slots_by)
  have rm: "r = map (\<lambda>a. nl ! b ! a) (ps ! b)" using rb b assms(2) by (simp add: slots_by_nth)
  have lr: "length (nl ! b) = k" using assms(4) b by simp
  have sp: "set (ps ! b) = {0..<k}" using permuted_nth(2) [OF assms(3)] b assms(2) by simp
  have "set r \<subseteq> set (nl ! b)" using rm sp lr by auto
  then have "x \<in> set (nl ! b)" "y \<in> set (nl ! b)" using x y by auto
  moreover have "nl ! b \<in> set nl" using b by simp
  ultimately show "x + inf_const < y" using assms(1) unfolding within_inf_def by blast
qed

lemma eos_position:
  assumes "2 < (V::nat)"
  shows "(j * V + 2) div V = j" and "(j * V + 2) mod V = 2"
  using assms div_mult_self3 [of V j 2] mod_mult_self3 [of j V 2] by simp_all

text \<open>
  The top \<open>k\<close> of the scores of a sample whose \<open>k\<close> slots are all pinned, when the
  running scores are less than \<open>1000\<close> apart: the \<open>eos\<close> continuation of every slot, in
  some order.
\<close>

lemma tk_pinned:
  assumes ok: "is_topk tk" and sel: "tk k row = Inr r"
    and len: "length row = k * V" and V: "2 < V" and lr: "length nl = k"
    and spread: "\<And>x y. x \<in> set nl \<Longrightarrow> y \<in> set nl \<Longrightarrow> x + inf_const < y"
    and eos: "\<And>j. j < k \<Longrightarrow> row ! (j * V + 2) = nl ! j"
    and other: "\<And>j v. j < k \<Longrightarrow> v < V \<Longrightarrow> v \<noteq> 2 \<Longrightarrow> row ! (j * V + v) = nl ! j + inf_const"
  shows "length (map (\<lambda>e. snd e div V) r) = k"
    and "set (map (\<lambda>e. snd e div V) r) = {0..<k}"
    and "\<And>e. e \<in> set r \<Longrightarrow> snd e mod V = 2 \<and> fst e = nl ! (snd e div V)"
proof -
  have lenr: "length r = k" and dist: "distinct (map snd r)"
    and valid: "\<And>p. p \<in> set r \<Longrightarrow> snd p < length row \<and> fst p = row ! snd p"
    and best: "\<And>i p. i < length row \<Longrightarrow> i \<notin> snd ` set r \<Longrightarrow> p \<in> set r \<Longrightarrow> row ! i \<le> fst p"
    using is_topk_Inr [OF ok sel] by blast+
  have Vpos: "0 < V" using V by simp
  let ?S = "snd ` set r"
  let ?E = "(\<lambda>j. j * V + 2) ` {0..<k}"
  have cardS: "card ?S = k"
    using distinct_card [OF dist] lenr by simp
  have "inj_on (\<lambda>j. j * V + 2) {0..<k}"
    using Vpos by (auto simp: inj_on_def)
  then have cardE: "card ?E = k" by (simp add: card_image)
  have slot: "\<And>e. e \<in> set r \<Longrightarrow> snd e div V < k"
  proof -
    fix e assume "e \<in> set r"
    then have "snd e < k * V" using valid len by auto
    then show "snd e div V < k" using Vpos by (simp add: less_mult_imp_div_less mult.commute)
  qed
  have modeos: "\<And>e. e \<in> set r \<Longrightarrow> snd e mod V = 2"
  proof (rule ccontr)
    fix e assume e: "e \<in> set r" and ne: "snd e mod V \<noteq> 2"
    let ?j = "snd e div V" and ?v = "snd e mod V"
    have j: "?j < k" using e by (rule slot)
    have v: "?v < V" using Vpos by simp
    have "fst e = row ! (?j * V + ?v)" using valid [OF e] by simp
    then have fe: "fst e = nl ! ?j + inf_const" using other [OF j v ne] by simp
    have "\<exists>q \<in> ?E. q \<notin> ?S"
    proof (rule ccontr)
      assume "\<not> (\<exists>q \<in> ?E. q \<notin> ?S)"
      then have "?E \<subseteq> ?S" by blast
      moreover have "finite ?S" by simp
      ultimately have "?E = ?S" using cardE cardS by (intro card_subset_eq) simp_all
      then have "snd e \<in> ?E" using e by blast
      then obtain j' where "snd e = j' * V + 2" by blast
      then have "snd e mod V = 2" using eos_position(2) [OF V, of j'] by simp
      then show False using ne by simp
    qed
    then obtain j' where j': "j' < k" and q: "j' * V + 2 \<notin> ?S" by auto
    have "j' * V + 2 < k * V" using block_index_less [OF j', of 2 V] V by simp
    then have "row ! (j' * V + 2) \<le> fst e" using best [OF _ q e] len by simp
    then have "nl ! j' \<le> nl ! ?j + inf_const" using eos [OF j'] fe by simp
    moreover have "nl ! ?j + inf_const < nl ! j'"
      using spread [of "nl ! ?j" "nl ! j'"] j j' lr by simp
    ultimately show False by simp
  qed
  show "\<And>e. e \<in> set r \<Longrightarrow> snd e mod V = 2 \<and> fst e = nl ! (snd e div V)"
  proof -
    fix e assume e: "e \<in> set r"
    have m: "snd e mod V = 2" using e by (rule modeos)
    have "snd e = snd e div V * V + 2" using m div_mult_mod_eq [of "snd e" V] by simp
    then have "row ! snd e = row ! (snd e div V * V + 2)" by simp
    then have "fst e = nl ! (snd e div V)" using valid [OF e] eos [OF slot [OF e]] by simp
    then show "snd e mod V = 2 \<and> fst e = nl ! (snd e div V)" using m by simp
  qed
  let ?p = "map (\<lambda>e. snd e div V) r"
  show lp: "length ?p = k" using lenr by simp
  have "inj_on (\<lambda>f. f div V) ?S"
  proof (rule inj_onI)
    fix f g assume f: "f \<in> ?S" and g: "g \<in> ?S" and eq: "f div V = g div V"
    have "f mod V = 2" "g mod V = 2" using f g modeos by auto
    then show "f = g" using eq div_mult_mod_eq [of f V] div_mult_mod_eq [of g V] by simp
  qed
  then have "distinct (map (\<lambda>f. f div V) (map snd r))"
    using dist distinct_map [of "\<lambda>f. f div V" "map snd r"] by simp
  then have "distinct ?p" by (simp add: o_def)
  then have "card (set ?p) = k" using distinct_card [of ?p] lp by simp
  moreover have "set ?p \<subseteq> {0..<k}" using slot by auto
  ultimately show "set ?p = {0..<k}" by (intro card_subset_eq) simp_all
qed

lemma nonzero_eos_all: "nonzero_eos (replicate n 2) = [0..<n]"
proof -
  have "filter (\<lambda>i. replicate n (2::nat) ! i = 2) [0..<n] = filter (\<lambda>i. True) [0..<n]"
    by (rule filter_cong) auto
  then show ?thesis by (simp add: nonzero_eos_def)
qed

lemma step_early:
  "step tk ds V u k supp True B t s =
     (if nonzero_eos (idxs s) \<noteq> [] \<and> length (nonzero_eos (idxs s)) = B * k
      then rbind (predict ds V u supp s) (\<lambda>(cds, hs, log_p1).
             Inr (True, s\<lparr>ctx_dicts := cds, h_ts := hs, idxs := nonzero_eos (idxs s)\<rparr>))
      else step tk ds V u k supp False B t s)"
  by (cases "predict ds V u supp s") (auto simp: step_def rbind_def Let_def)

lemma nonzero_eos_full:
  assumes "length (nonzero_eos ys) = length ys"
  shows "ys = replicate (length ys) 2"
proof (rule nth_equalityI)
  show "length ys = length (replicate (length ys) (2::nat))" by simp
  fix i assume i: "i < length ys"
  have "ys ! i = 2"
  proof (rule ccontr)
    assume "ys ! i \<noteq> 2"
    then have "length (filter (\<lambda>i. ys ! i = 2) [0..<length ys]) < length [0..<length ys]"
      using i by (intro length_filter_less [of i]) simp_all
    then show False using assms by (simp add: nonzero_eos_def)
  qed
  then show "ys ! i = replicate (length ys) 2 ! i" using i by simp
qed

lemma concat_const_rect:
  assumes "concat row = replicate (B * k) c" and "length row = B" and "\<forall>r \<in> set row. length r = k"
  shows "row = replicate B (replicate k c)"
proof (rule nth_equalityI)
  show "length row = length (replicate B (replicate k c))" using assms(2) by simp
  fix b assume "b < length row"
  then have b: "b < B" using assms(2) by simp
  have lb: "length (row ! b) = k" using assms(2,3) b by simp
  have "row ! b = replicate k c"
  proof (rule nth_equalityI)
    show "length (row ! b) = length (replicate k c)" using lb by simp
    fix j assume "j < length (row ! b)"
    then have j: "j < k" using lb by simp
    have lt: "b * k + j < length row * k" using block_index_less [OF b j] assms(2) by simp
    have "concat row ! (b * k + j) = row ! ((b * k + j) div k) ! ((b * k + j) mod k)"
      using assms(3) lt by (intro concat_nth_rect)
    then have "row ! b ! j = concat row ! (b * k + j)" using j by simp
    also have "\<dots> = c" using assms(1,2) lt by simp
    finally show "row ! b ! j = replicate k c ! j" using j by simp
  qed
  then show "row ! b = replicate B (replicate k c) ! b" using b by simp
qed

lemma step_full_continues:
  assumes "step tk ds V u k supp False B t s = Inr (brk, s1)"
  shows "\<not> brk"
  using assms by (cases rule: step_InrE) simp_all

lemma mapM_Inl:
  assumes "\<And>x e'. x \<in> set xs \<Longrightarrow> f x = Inl e' \<Longrightarrow> e' = e"
    and "\<exists>x \<in> set xs. \<exists>e'. f x = Inl e'"
  shows "mapM f xs = Inl e"
  using assms
proof (induction xs)
  case Nil
  then show ?case by simp
next
  case (Cons x xs)
  show ?case
  proof (cases "f x")
    case (Inl e')
    then have "e' = e" using Cons.prems(1) [of x e'] by simp
    then show ?thesis using Inl by (simp add: rbind_def)
  next
    case (Inr y)
    then have "\<exists>x \<in> set xs. \<exists>e'. f x = Inl e'" using Cons.prems(2) by auto
    then have "mapM f xs = Inl e" using Cons.prems(1) by (intro Cons.IH) auto
    then show ?thesis using Inr by (simp add: rbind_def)
  qed
qed

lemma select_hyps_shaped:
  assumes "beam_shape B k bm" and "bm \<noteq> []"
  shows "select_hyps B bm th =
           (if length th = B \<and> (\<forall>b < B. th ! b < k)
            then Inr (map (\<lambda>b. map (\<lambda>row. row ! b ! (th ! b)) bm) [0..<B])
            else Inl IndexError)"
proof -
  let ?g = "\<lambda>b row. if b < length row \<and> th ! b < length (row ! b)
                     then Inr (row ! b ! (th ! b)) else (Inl IndexError :: error + nat)"
  have cell: "\<And>b row. b < B \<Longrightarrow> row \<in> set bm \<Longrightarrow>
                ?g b row = (if th ! b < k then Inr (row ! b ! (th ! b)) else Inl IndexError)"
    using assms(1) by (auto simp: beam_shape_def)
  have inner: "\<And>b. b < B \<Longrightarrow> mapM (?g b) bm =
         (if th ! b < k then Inr (map (\<lambda>row. row ! b ! (th ! b)) bm) else Inl IndexError)"
  proof -
    fix b assume b: "b < B"
    show "mapM (?g b) bm =
         (if th ! b < k then Inr (map (\<lambda>row. row ! b ! (th ! b)) bm) else Inl IndexError)"
    proof (cases "th ! b < k")
      case True
      then have "mapM (?g b) bm = Inr (map (\<lambda>row. row ! b ! (th ! b)) bm)"
        using cell [OF b] by (intro mapM_map) simp
      then show ?thesis using True by simp
    next
      case False
      have "mapM (?g b) bm = Inl IndexError"
      proof (rule mapM_Inl)
        show "\<And>x e'. x \<in> set bm \<Longrightarrow> ?g b x = Inl e' \<Longrightarrow> e' = IndexError"
          by (auto split: if_splits)
        obtain row where "row \<in> set bm" using assms(2) by (cases bm) auto
        then show "\<exists>x \<in> set bm. \<exists>e'. ?g b x = Inl e'"
          using cell [OF b] False by auto
      qed
      then show ?thesis using False by simp
    qed
  qed
  show ?thesis
  proof (cases "length th = B")
    case False
    then show ?thesis by (simp add: select_hyps_def)
  next
    case len: True
    show ?thesis
    proof (cases "\<forall>b < B. th ! b < k")
      case True
      have "mapM (\<lambda>b. mapM (?g b) bm) [0..<B] = Inr (map (\<lambda>b. map (\<lambda>row. row ! b ! (th ! b)) bm) [0..<B])"
      proof (rule mapM_map)
        fix b assume "b \<in> set [0..<B]"
        then have b: "b < B" by simp
        have "mapM (?g b) bm =
           (if th ! b < k then Inr (map (\<lambda>row. row ! b ! (th ! b)) bm) else Inl IndexError)"
          using b by (rule inner)
        also have "\<dots> = Inr (map (\<lambda>row. row ! b ! (th ! b)) bm)" using True b by simp
        finally show "mapM (?g b) bm = Inr (map (\<lambda>row. row ! b ! (th ! b)) bm)" .
      qed
      then show ?thesis using len True by (simp add: select_hyps_def)
    next
      case False
      have "mapM (\<lambda>b. mapM (?g b) bm) [0..<B] = Inl IndexError"
      proof (rule mapM_Inl)
        fix x e' assume "x \<in> set [0..<B]" and e: "mapM (?g x) bm = Inl e'"
        then have "x < B" by simp
        then have "mapM (?g x) bm =
           (if th ! x < k then Inr (map (\<lambda>row. row ! x ! (th ! x)) bm) else Inl IndexError)"
          by (rule inner)
        then show "e' = IndexError" using e by (simp split: if_splits)
      next
        obtain b where b: "b < B" "\<not> th ! b < k" using False by auto
        have "mapM (?g b) bm =
           (if th ! b < k then Inr (map (\<lambda>row. row ! b ! (th ! b)) bm) else Inl IndexError)"
          using b(1) by (rule inner)
        then have "mapM (?g b) bm = Inl IndexError" using b(2) by simp
        then show "\<exists>x \<in> set [0..<B]. \<exists>e'. mapM (?g x) bm = Inl e'"
          using b(1) by (intro bexI [of _ b] exI [of _ IndexError]) simp_all
      qed
      then show ?thesis using len False by (simp add: select_hyps_def)
    qed
  qed
qed

lemma takeWhile_agree:
  assumes "tp < length xs" and "tp < length ys" and "\<forall>i \<le> tp. xs ! i = ys ! i" and "\<not> P (xs ! tp)"
  shows "takeWhile P xs = takeWhile P ys"
proof -
  have tk: "take (Suc tp) xs = take (Suc tp) ys"
    using assms(1-3) by (intro nth_equalityI) auto
  have "xs ! tp = take (Suc tp) xs ! tp" by simp
  moreover have "tp < length (take (Suc tp) xs)" using assms(1) by simp
  ultimately have mx: "xs ! tp \<in> set (take (Suc tp) xs)" by (metis nth_mem)
  have x: "takeWhile P (take (Suc tp) xs @ drop (Suc tp) xs) = takeWhile P (take (Suc tp) xs)"
    using mx assms(4) by (rule takeWhile_append1)
  have my: "xs ! tp \<in> set (take (Suc tp) ys)" using mx tk by simp
  have y: "takeWhile P (take (Suc tp) ys @ drop (Suc tp) ys) = takeWhile P (take (Suc tp) ys)"
    using my assms(4) by (rule takeWhile_append1)
  have "takeWhile P xs = takeWhile P (take (Suc tp) xs @ drop (Suc tp) xs)" by simp
  also have "\<dots> = takeWhile P (take (Suc tp) xs)" by (rule x)
  also have "\<dots> = takeWhile P (take (Suc tp) ys)" by (simp only: tk)
  also have "\<dots> = takeWhile P (take (Suc tp) ys @ drop (Suc tp) ys)" by (rule y [symmetric])
  also have "\<dots> = takeWhile P ys" by simp
  finally show ?thesis .
qed

lemma rbind_Inr: "rbind (Inr x) f = f x"
  by (simp add: rbind_def)

lemma put_eos_shaped:
  assumes "beam_shape B k bm"
  shows "put_eos max_len e bm =
           (if 0 < max_len \<and> max_len \<le> length bm
            then Inr (bm[max_len - 1 := replicate B (replicate k e)]) else Inl IndexError)"
proof (cases "0 < max_len \<and> max_len \<le> length bm")
  case True
  then have "max_len - 1 < length bm" by arith
  then have "bm ! (max_len - 1) \<in> set bm" by (rule nth_mem)
  then have "length (bm ! (max_len - 1)) = B" "\<forall>r \<in> set (bm ! (max_len - 1)). length r = k"
    using assms by (auto simp: beam_shape_def)
  then have "map (map (\<lambda>_. e)) (bm ! (max_len - 1)) = replicate B (replicate k e)"
    by (intro nth_equalityI) (simp_all add: map_replicate_const)
  then show ?thesis using True by (simp add: put_eos_def)
next
  case False
  then show ?thesis by (auto simp: put_eos_def)
qed

lemma update_shape:
  assumes "beam_shape B k bm"
  shows "beam_shape B k (bm[m := replicate B (replicate k e)])"
proof -
  have "set (bm[m := replicate B (replicate k e)]) \<subseteq> insert (replicate B (replicate k e)) (set bm)"
    by (rule set_update_subset_insert)
  then show ?thesis using assms unfolding beam_shape_def by auto
qed

lemma finish_same:
  assumes "nll s' = nll s" and "beam s' = beam s"
  shows "map_sum id snd (finish tk vocab max_len lp_alpha k B sto1 s)
       = map_sum id snd (finish tk vocab max_len lp_alpha k B sto2 s')"
  using assms by (simp add: finish_def map_sum_rbind Let_def)

text \<open>
  A step of the loop without the exit at a state whose slots are all finished: it
  rearranges the slots of every sample, scores and history alike, and writes token
  \<open>2\<close> into row \<open>t\<close> of the beam tensor.
\<close>

lemma idle_step:
  assumes st: "step tk ds V u k supp False B t s = Inr (brk, s')"
    and ok: "is_topk tk"
    and idx: "idxs s = replicate (B * k) 2"
    and lennl: "length (nll s) = B" and rows: "\<forall>r \<in> set (nll s). length r = k"
    and spread: "within_inf (nll s)" and V: "2 < V" and pos: "0 < B * k"
  shows "\<not> brk \<and> idxs s' = idxs s \<and> t < length (beam s) \<and>
     (\<exists>q. length q = B \<and> permuted k q \<and> nll s' = slots_by q (nll s) \<and>
          beam s' = map (slots_by q) (take t (beam s)) @ replicate B (replicate k 2)
                      # drop (Suc t) (beam s))"
  using st
proof (cases rule: step_InrE)
  case (Break cds hs log_p1)
  then show ?thesis by simp
next
  case (Continue cds hs log_p1 sel bm ys til)
  have lenidx: "length (idxs s) = B * k" using idx by simp
  have sh1: "well_shaped (length (idxs s)) V log_p1" using Continue(1) by (rule predict_shaped)
  have posne: "nonzero_eos (idxs s) \<noteq> []" using idx pos by (simp add: nonzero_eos_all)
  from Continue(4) obtain lp scores where
    lp: "(if nonzero_eos (idxs s) \<noteq> [] then pin_eos V (nonzero_eos (idxs s)) log_p1 else Inr log_p1) = Inr lp"
    and cs: "cross_sum B (nll s) lp = Inr scores"
    and tks: "mapM (tk k) scores = Inr sel"
    by (rule select_topk_InrE)
  have pin: "pin_eos V (nonzero_eos (idxs s)) log_p1 = Inr lp" using lp posne by simp
  obtain lp' where "pin_eos V (nonzero_eos (idxs s)) log_p1 = Inr lp'"
    and shl0: "well_shaped (length (idxs s)) V lp'"
    and "\<forall>p < length (idxs s). lp' ! p = (if idxs s ! p = 2 then (replicate V inf_const)[2 := 0] else log_p1 ! p)"
    using pin_eos_rows [OF sh1 V] by blast
  then have shl: "well_shaped (B * k) V lp"
    and lpp: "\<And>p. p < B * k \<Longrightarrow> lp ! p = (replicate V inf_const)[2 := 0]"
    using pin idx by simp_all
  have lensc: "length scores = B" using cs by (rule cross_sum_length)
  have lensel: "length sel = B" using tks lensc by (simp add: mapM_Inr_iff)
  let ?flat = "map (map snd) sel"
  let ?pdxs = "map (map (\<lambda>f. f div V)) ?flat"
  let ?toks = "map (map (\<lambda>f. f mod V)) ?flat"
  have selb: "\<And>b. b < B \<Longrightarrow>
      length (map (\<lambda>e. snd e div V) (sel ! b)) = k \<and>
      set (map (\<lambda>e. snd e div V) (sel ! b)) = {0..<k} \<and>
      (\<forall>e \<in> set (sel ! b). snd e mod V = 2 \<and> fst e = nll s ! b ! (snd e div V))"
  proof -
    fix b assume b: "b < B"
    have r: "nll s ! b \<in> set (nll s)" using b lennl by simp
    have tkb: "tk k (scores ! b) = Inr (sel ! b)" using tks b lensc by (simp add: mapM_Inr_iff)
    have l: "length (scores ! b) = k * V" using cross_sum_Inr(1) [OF cs rows shl b] .
    have lr: "length (nll s ! b) = k" using rows r by simp
    have sp: "\<And>x y. x \<in> set (nll s ! b) \<Longrightarrow> y \<in> set (nll s ! b) \<Longrightarrow> x + inf_const < y"
      using spread r by (auto simp: within_inf_def)
    have e: "\<And>j. j < k \<Longrightarrow> scores ! b ! (j * V + 2) = nll s ! b ! j"
    proof -
      fix j assume j: "j < k"
      have p: "b * k + j < B * k" using b j by (rule block_index_less)
      show "scores ! b ! (j * V + 2) = nll s ! b ! j"
        using cross_sum_Inr(2) [OF cs rows shl b j, of 2] V lpp [OF p] by simp
    qed
    have o: "\<And>j v. j < k \<Longrightarrow> v < V \<Longrightarrow> v \<noteq> 2 \<Longrightarrow> scores ! b ! (j * V + v) = nll s ! b ! j + inf_const"
    proof -
      fix j v assume j: "j < k" and v: "v < V" "v \<noteq> 2"
      have p: "b * k + j < B * k" using b j by (rule block_index_less)
      show "scores ! b ! (j * V + v) = nll s ! b ! j + inf_const"
        using cross_sum_Inr(2) [OF cs rows shl b j v(1)] v lpp [OF p] by simp
    qed
    show "length (map (\<lambda>e. snd e div V) (sel ! b)) = k \<and>
      set (map (\<lambda>e. snd e div V) (sel ! b)) = {0..<k} \<and>
      (\<forall>e \<in> set (sel ! b). snd e mod V = 2 \<and> fst e = nll s ! b ! (snd e div V))"
      using tk_pinned [OF ok tkb l V lr sp e o] by blast
  qed
  have pd: "\<And>b. b < B \<Longrightarrow> ?pdxs ! b = map (\<lambda>e. snd e div V) (sel ! b)"
    using lensel by (simp add: o_def)
  have lenq: "length ?pdxs = B" using lensel by simp
  have perm: "permuted k ?pdxs"
    unfolding permuted_def
  proof
    fix p assume "p \<in> set ?pdxs"
    then obtain b where b0: "b < length ?pdxs" and p0: "?pdxs ! b = p"
      unfolding in_set_conv_nth by blast
    have b: "b < B" using b0 unfolding lenq .
    have p: "p = ?pdxs ! b" using p0 by (rule sym)
    show "length p = k \<and> set p = {0..<k}"
      unfolding p pd [OF b] using selb [OF b] by blast
  qed
  have nll': "map (map fst) sel = slots_by ?pdxs (nll s)"
  proof (rule nth_equalityI)
    show "length (map (map fst) sel) = length (slots_by ?pdxs (nll s))"
      using lensel lennl by (simp add: length_slots_by)
    fix b assume "b < length (map (map fst) sel)"
    then have b: "b < B" using lensel by simp
    have "map fst (sel ! b) = map (\<lambda>e. nll s ! b ! (snd e div V)) (sel ! b)"
      using selb [OF b] by (intro map_cong) simp_all
    also have "\<dots> = map (\<lambda>a. nll s ! b ! a) (?pdxs ! b)"
      unfolding pd [OF b] by (simp add: o_def)
    also have "\<dots> = slots_by ?pdxs (nll s) ! b"
      using b lennl lenq by (simp only: slots_by_nth)
    finally show "map (map fst) sel ! b = slots_by ?pdxs (nll s) ! b"
      using b lensel by simp
  qed
  have toks: "?toks = replicate B (replicate k 2)"
  proof (rule nth_equalityI)
    show "length ?toks = length (replicate B (replicate k (2::nat)))" using lensel by simp
    fix b assume "b < length ?toks"
    then have b: "b < B" using lensel by simp
    have lk: "length (sel ! b) = k" using selb [OF b] by simp
    have "map (\<lambda>e. snd e mod V) (sel ! b) = map (\<lambda>e. 2) (sel ! b)"
      using selb [OF b] by (intro map_cong) simp_all
    then have "map (\<lambda>e. snd e mod V) (sel ! b) = replicate k 2"
      using lk by (simp add: map_replicate_const)
    then show "?toks ! b = replicate B (replicate k 2) ! b"
      using b lensel by (simp add: o_def)
  qed
  have t: "t < length (beam s)"
    and rec: "(bm, ys, til) = (gathered ?pdxs (take t (beam s)) @ ?toks # drop (Suc t) (beam s),
        concat ?toks, new_tile k B t ?pdxs)"
    using record_topk_Inr [OF Continue(5)] by simp_all
  have bm: "bm = map (slots_by ?pdxs) (take t (beam s)) @ replicate B (replicate k 2)
                   # drop (Suc t) (beam s)"
    using rec toks by (simp add: gathered_slots_by)
  have ys: "ys = replicate (B * k) 2"
  proof -
    have "concat (replicate B (replicate k (2::nat))) = replicate (B * k) 2"
      by (induction B) (simp_all add: replicate_add [symmetric] add.commute)
    then show ?thesis using rec toks by simp
  qed
  have "\<exists>q. length q = B \<and> permuted k q \<and> nll s' = slots_by q (nll s) \<and>
          beam s' = map (slots_by q) (take t (beam s)) @ replicate B (replicate k 2)
                      # drop (Suc t) (beam s)"
    using lenq perm nll' bm Continue(6) by (intro exI [of _ ?pdxs]) simp
  then show ?thesis
    using Continue(2,6) ys idx t by simp
qed

lemma slots_by_id:
  assumes "length xs = B" and "\<forall>r \<in> set xs. length r = k"
  shows "slots_by (replicate B [0..<k]) xs = xs"
proof (rule nth_equalityI)
  show "length (slots_by (replicate B [0..<k]) xs) = length xs"
    using assms(1) by (simp add: length_slots_by)
  fix b assume "b < length (slots_by (replicate B [0..<k]) xs)"
  then have b: "b < B" using assms(1) by (simp add: length_slots_by)
  then have "length (xs ! b) = k" using assms by simp
  then have "map (\<lambda>a. xs ! b ! a) [0..<k] = xs ! b" using map_nth [of "xs ! b"] by simp
  then show "slots_by (replicate B [0..<k]) xs ! b = xs ! b"
    using b assms(1) by (simp add: slots_by_nth)
qed

lemma permuted_id: "permuted k (replicate B [0..<k])"
  by (simp add: permuted_def)

lemma slots_by_shape:
  assumes "length q = B" and "permuted k q" and "length row = B"
  shows "length (slots_by q row) = B" and "\<forall>r \<in> set (slots_by q row). length r = k"
proof -
  show l: "length (slots_by q row) = B" using assms(1,3) by (simp add: length_slots_by)
  show "\<forall>r \<in> set (slots_by q row). length r = k"
  proof
    fix r assume "r \<in> set (slots_by q row)"
    then obtain b where "b < length (slots_by q row)" and "slots_by q row ! b = r"
      unfolding in_set_conv_nth by blast
    then have b: "b < B" and r: "r = map (\<lambda>a. row ! b ! a) (q ! b)"
      using l assms(1,3) by (simp_all add: slots_by_nth)
    show "length r = k" using r permuted_nth(1) [OF assms(2)] b assms(1) by simp
  qed
qed

lemma idle_beam:
  assumes t: "t < length bm" and shape: "beam_shape B k bm"
    and q: "length q = B" "permuted k q"
  shows "length (map (slots_by q) (take t bm) @ replicate B (replicate k 2) # drop (Suc t) bm)
           = length bm"
    and "beam_shape B k (map (slots_by q) (take t bm) @ replicate B (replicate k 2) # drop (Suc t) bm)"
    and "\<And>t'. t' < length bm \<Longrightarrow>
           (map (slots_by q) (take t bm) @ replicate B (replicate k 2) # drop (Suc t) bm) ! t'
             = (if t' < t then slots_by q (bm ! t')
                else if t' = t then replicate B (replicate k 2) else bm ! t')"
proof -
  let ?bm = "map (slots_by q) (take t bm) @ replicate B (replicate k 2) # drop (Suc t) bm"
  show "length ?bm = length bm" using t by simp
  have rows: "\<And>row. row \<in> set bm \<Longrightarrow> length row = B \<and> (\<forall>r \<in> set row. length r = k)"
    using shape by (simp add: beam_shape_def)
  show "beam_shape B k ?bm"
    unfolding beam_shape_def
  proof
    fix row assume "row \<in> set ?bm"
    then consider (a) "row \<in> slots_by q ` set (take t bm)" | (b) "row = replicate B (replicate k 2)"
      | (c) "row \<in> set (drop (Suc t) bm)" by auto
    then show "length row = B \<and> (\<forall>r \<in> set row. length r = k)"
    proof cases
      case a
      then obtain r0 where r0: "r0 \<in> set (take t bm)" and row: "row = slots_by q r0" by blast
      have "length r0 = B" using r0 rows by (auto dest: in_set_takeD)
      then show ?thesis using slots_by_shape [OF q] row by blast
    next
      case b
      then show ?thesis by simp
    next
      case c
      then show ?thesis using rows by (auto dest: in_set_dropD)
    qed
  qed
  fix t' assume t': "t' < length bm"
  have lt: "length (map (slots_by q) (take t bm)) = t" using t by simp
  show "?bm ! t' = (if t' < t then slots_by q (bm ! t')
                else if t' = t then replicate B (replicate k 2) else bm ! t')"
  proof (cases "t' < t")
    case True
    then show ?thesis using t by (simp add: nth_append)
  next
    case False
    show ?thesis
    proof (cases "t' = t")
      case True
      then show ?thesis using lt by (simp add: nth_append)
    next
      case ne: False
      then obtain d where d: "t' = Suc t + d" using False less_iff_Suc_add [of t t'] by auto
      then have "?bm ! t' = drop (Suc t) bm ! d" using lt by (simp add: nth_append)
      then show ?thesis using d t' False ne by simp
    qed
  qed
qed

text \<open>
  The loop without the exit from a state whose slots are all finished: the slots of
  every sample are rearranged, and the rows of the steps that were run hold token
  \<open>2\<close>.
\<close>

lemma idle_loop:
  assumes loop: "step_loop tk ds V u k supp False B [t..<length (beam s)] s = Inr s'"
    and ok: "is_topk tk"
    and idx: "idxs s = replicate (B * k) 2"
    and lennl: "length (nll s) = B" and rows: "\<forall>r \<in> set (nll s). length r = k"
    and spread: "within_inf (nll s)" and V: "2 < V" and pos: "0 < B * k"
    and shape: "beam_shape B k (beam s)"
  shows "length (beam s') = length (beam s) \<and> beam_shape B k (beam s') \<and>
     (\<exists>ps. length ps = B \<and> permuted k ps \<and> nll s' = slots_by ps (nll s) \<and>
        (\<forall>t' < length (beam s). beam s' ! t' =
           (if t' < t then slots_by ps (beam s ! t') else replicate B (replicate k 2))))"
  using loop idx lennl rows spread shape
proof (induction m \<equiv> "length (beam s) - t" arbitrary: t s)
  case 0
  then have e: "[t..<length (beam s)] = []" by simp
  have s': "s' = s" using "0.prems"(1) unfolding e by simp
  have "\<forall>t' < length (beam s). beam s ! t' = slots_by (replicate B [0..<k]) (beam s ! t')"
  proof (intro allI impI)
    fix t' assume "t' < length (beam s)"
    then have "beam s ! t' \<in> set (beam s)" by simp
    then have "length (beam s ! t') = B" "\<forall>r \<in> set (beam s ! t'). length r = k"
      using "0.prems"(6) by (simp_all add: beam_shape_def)
    then show "beam s ! t' = slots_by (replicate B [0..<k]) (beam s ! t')"
      using slots_by_id by metis
  qed
  moreover have "\<forall>t' < length (beam s). t' < t" using "0.hyps" by simp
  moreover have "nll s = slots_by (replicate B [0..<k]) (nll s)"
    using slots_by_id [OF "0.prems"(3,4)] by simp
  ultimately have "length (replicate B [0..<k]) = B \<and> permuted k (replicate B [0..<k]) \<and>
      nll s = slots_by (replicate B [0..<k]) (nll s) \<and>
      (\<forall>t' < length (beam s). beam s ! t' =
           (if t' < t then slots_by (replicate B [0..<k]) (beam s ! t') else replicate B (replicate k 2)))"
    using permuted_id [of k B] by simp
  then show ?case unfolding s' using "0.prems"(6) by blast
next
  case (Suc m)
  let ?n = "length (beam s)"
  have tn: "t < ?n" using Suc.hyps(2) by simp
  then have ts: "[t..<?n] = t # [Suc t..<?n]" by (rule upt_conv_Cons)
  from Suc.prems(1) obtain r where r: "step tk ds V u k supp False B t s = Inr r"
    and rest: "(case r of (brk, s1) \<Rightarrow> if brk then Inr s1
                  else step_loop tk ds V u k supp False B [Suc t..<?n] s1) = Inr s'"
    unfolding ts by (auto elim: rbind_InrE)
  obtain brk s1 where rq: "r = (brk, s1)" by (cases r) auto
  have "\<not> brk \<and> idxs s1 = idxs s \<and> t < length (beam s) \<and>
     (\<exists>q. length q = B \<and> permuted k q \<and> nll s1 = slots_by q (nll s) \<and>
          beam s1 = map (slots_by q) (take t (beam s)) @ replicate B (replicate k 2)
                      # drop (Suc t) (beam s))"
    using r ok Suc.prems(2,3,4,5) V pos unfolding rq by (rule idle_step)
  then obtain q where nb: "\<not> brk" and idx1: "idxs s1 = idxs s"
    and q: "length q = B" "permuted k q" and nll1: "nll s1 = slots_by q (nll s)"
    and bm1: "beam s1 = map (slots_by q) (take t (beam s)) @ replicate B (replicate k 2)
                      # drop (Suc t) (beam s)"
    by blast
  have len1: "length (beam s1) = ?n" unfolding bm1 using idle_beam(1) [OF tn Suc.prems(6) q] .
  have sh1: "beam_shape B k (beam s1)" unfolding bm1 using idle_beam(2) [OF tn Suc.prems(6) q] .
  have row1: "\<And>t'. t' < ?n \<Longrightarrow> beam s1 ! t' =
      (if t' < t then slots_by q (beam s ! t')
       else if t' = t then replicate B (replicate k 2) else beam s ! t')"
    unfolding bm1 using idle_beam(3) [OF tn Suc.prems(6) q] .
  have loop1: "step_loop tk ds V u k supp False B [Suc t..<length (beam s1)] s1 = Inr s'"
    using rest nb unfolding rq len1 by simp
  have m: "m = length (beam s1) - Suc t" using Suc.hyps(2) len1 by simp
  have i1: "idxs s1 = replicate (B * k) 2" using idx1 Suc.prems(2) by simp
  have l1: "length (nll s1) = B" unfolding nll1 using q(1) Suc.prems(3) by (simp add: length_slots_by)
  have r1: "\<forall>r \<in> set (nll s1). length r = k"
    unfolding nll1 using slots_by_shape(2) [OF q Suc.prems(3)] .
  have w1: "within_inf (nll s1)"
    unfolding nll1 using Suc.prems(5) _ q(2) Suc.prems(4)
    by (rule within_inf_slots_by) (simp add: q(1) Suc.prems(3))
  have ih: "length (beam s') = length (beam s1) \<and> beam_shape B k (beam s') \<and>
     (\<exists>ps. length ps = B \<and> permuted k ps \<and> nll s' = slots_by ps (nll s1) \<and>
        (\<forall>t' < length (beam s1). beam s' ! t' =
           (if t' < Suc t then slots_by ps (beam s1 ! t') else replicate B (replicate k 2))))"
    using m loop1 i1 l1 r1 w1 sh1 by (rule Suc.hyps(1))
  then obtain ps1 where p1: "length ps1 = B" "permuted k ps1"
    and nll': "nll s' = slots_by ps1 (nll s1)"
    and row': "\<And>t'. t' < ?n \<Longrightarrow> beam s' ! t' =
           (if t' < Suc t then slots_by ps1 (beam s1 ! t') else replicate B (replicate k 2))"
    unfolding len1 by blast
  let ?ps = "slots_by ps1 q"
  have c2: "permuted k ?ps" and c3: "length ?ps = B"
    using slots_by_comp(2,3) [OF q(1) p1(1) Suc.prems(3) q(2) p1(2)] by simp_all
  have n': "nll s' = slots_by ?ps (nll s)"
    unfolding nll' nll1 using slots_by_comp(1) [OF q(1) p1(1) Suc.prems(3) q(2) p1(2)] .
  have rows': "\<forall>t' < ?n. beam s' ! t' =
           (if t' < t then slots_by ?ps (beam s ! t') else replicate B (replicate k 2))"
  proof (intro allI impI)
    fix t' assume t': "t' < ?n"
    show "beam s' ! t' = (if t' < t then slots_by ?ps (beam s ! t') else replicate B (replicate k 2))"
    proof (cases "t' < t")
      case True
      have "beam s ! t' \<in> set (beam s)" using t' by simp
      then have lb: "length (beam s ! t') = B" using Suc.prems(6) by (simp add: beam_shape_def)
      have "beam s' ! t' = slots_by ps1 (slots_by q (beam s ! t'))"
        using row' [OF t'] row1 [OF t'] True by simp
      also have "\<dots> = slots_by ?ps (beam s ! t')"
        using slots_by_comp(1) [OF q(1) p1(1) lb q(2) p1(2)] .
      finally show ?thesis using True by simp
    next
      case False
      show ?thesis
      proof (cases "t' = t")
        case True
        have "beam s' ! t' = slots_by ps1 (replicate B (replicate k 2))"
          using row' [OF t'] row1 [OF t'] True by simp
        then show ?thesis using slots_by_const [OF p1] True by simp
      next
        case ne: False
        then show ?thesis using row' [OF t'] False by simp
      qed
    qed
  qed
  have "length ?ps = B \<and> permuted k ?ps \<and> nll s' = slots_by ?ps (nll s) \<and>
        (\<forall>t' < ?n. beam s' ! t' =
           (if t' < t then slots_by ?ps (beam s ! t') else replicate B (replicate k 2)))"
    using c2 c3 n' rows' by simp
  then have ex: "\<exists>ps. length ps = B \<and> permuted k ps \<and> nll s' = slots_by ps (nll s) \<and>
        (\<forall>t' < ?n. beam s' ! t' =
           (if t' < t then slots_by ps (beam s ! t') else replicate B (replicate k 2)))"
    by (rule exI [where x = ?ps])
  have l': "length (beam s') = ?n" using conjunct1 [OF ih] len1 by simp
  have sh': "beam_shape B k (beam s')" using conjunct1 [OF conjunct2 [OF ih]] .
  show ?case using l' sh' ex by (intro conjI)
qed

lemma step_started:
  assumes st: "step tk ds V u k supp early B t s = Inr (False, s1)"
    and inv: "started B k t s" and ok: "is_topk tk"
  shows "started B k (Suc t) s1" and "length (beam s1) = length (beam s)"
    and "t < length (beam s)"
proof -
  from st have "started B k (Suc t) s1 \<and> length (beam s1) = length (beam s) \<and> t < length (beam s)"
  proof (cases rule: step_InrE)
    case (Break cds hs log_p1)
    then show ?thesis by simp
  next
    case (Continue cds hs log_p1 sel bm ys til)
    have shape: "beam_shape B k (beam s)"
      and zero: "\<forall>t'. t \<le> t' \<and> t' < length (beam s) \<longrightarrow> beam s ! t' = replicate B (replicate k 0)"
      using inv by (auto simp: started_def)
    let ?flat = "map (map snd) sel"
    let ?pdxs = "map (map (\<lambda>f. f div V)) ?flat"
    let ?toks = "map (map (\<lambda>f. f mod V)) ?flat"
    have lensel: "length sel = B" and rowsel: "\<forall>r \<in> set sel. length r = k"
      using select_topk_shape [OF Continue(4) ok] by simp_all
    have fl: "length ?flat = B" "\<forall>r \<in> set ?flat. length r = k" using lensel rowsel by auto
    have sh1: "beam_shape B k bm" and len1: "length bm = length (beam s)"
      using record_topk_shape [OF Continue(5) shape fl] by simp_all
    have t: "t < length (beam s)"
      and bm: "bm = gathered ?pdxs (take t (beam s)) @ ?toks # drop (Suc t) (beam s)"
      and ys: "ys = concat ?toks"
      using record_topk_Inr [OF Continue(5)] by simp_all
    have lg: "length (gathered ?pdxs (take t (beam s))) = t" using t by (simp add: gathered_def)
    have later: "\<And>t'. t < t' \<Longrightarrow> t' < length (beam s) \<Longrightarrow> bm ! t' = beam s ! t'"
    proof -
      fix t' assume a: "t < t'" "t' < length (beam s)"
      then obtain d where d: "t' = Suc t + d" using less_iff_Suc_add by auto
      then have "bm ! t' = drop (Suc t) (beam s) ! d"
        unfolding bm using lg by (simp add: nth_append)
      then show "bm ! t' = beam s ! t'" using d a by simp
    qed
    have rowt: "bm ! t = ?toks" unfolding bm using lg by (simp add: nth_append)
    have s1: "beam s1 = bm" "idxs s1 = ys" "nll s1 = map (map fst) sel" using Continue(6) by simp_all
    have nl: "\<forall>r \<in> set (map (map fst) sel). length r = k" using rowsel by auto
    have "started B k (Suc t) s1"
      unfolding started_def
    proof (intro conjI)
      show "beam_shape B k (beam s1)" using sh1 s1 by simp
      show "\<forall>t'. Suc t \<le> t' \<and> t' < length (beam s1) \<longrightarrow> beam s1 ! t' = replicate B (replicate k 0)"
        using zero later len1 s1 by auto
      have "length (nll s1) = B" using s1 lensel by simp
      moreover have "\<forall>r \<in> set (nll s1). length r = k" using nl s1 by simp
      moreover have "Suc t \<le> length (beam s1)" using t len1 s1 by simp
      moreover have "idxs s1 = concat (beam s1 ! (Suc t - 1))" using rowt ys s1 by simp
      ultimately show "2 \<notin> set (idxs s1) \<or>
         (length (nll s1) = B \<and> (\<forall>r \<in> set (nll s1). length r = k) \<and>
          0 < Suc t \<and> Suc t \<le> length (beam s1) \<and> idxs s1 = concat (beam s1 ! (Suc t - 1)))"
        by simp
    qed
    then show ?thesis using len1 s1 t by simp
  qed
  then show "started B k (Suc t) s1" and "length (beam s1) = length (beam s)"
    and "t < length (beam s)" by simp_all
qed

text \<open>
  The two loops run alike until the exit is taken; from there the loop without the
  exit only idles.
\<close>

lemma early_exit_loop:
  assumes early: "step_loop tk ds V u k supp True B [t..<length (beam s0)] s0 = Inr s"
    and full: "step_loop tk ds V u k supp False B [t..<length (beam s0)] s0 = Inr s'"
    and inv: "started B k t s0" and ok: "is_topk tk" and V: "2 < V"
    and spread: "within_inf (nll s)"
  shows "(nll s' = nll s \<and> beam s' = beam s) \<or> exited_early B k s s'"
  using early full inv
proof (induction m \<equiv> "length (beam s0) - t" arbitrary: t s0)
  case 0
  then have e: "[t..<length (beam s0)] = []" by simp
  have "s = s0" "s' = s0" using "0.prems"(1,2) unfolding e by simp_all
  then show ?case by simp
next
  case (Suc m)
  let ?n = "length (beam s0)"
  let ?pos = "nonzero_eos (idxs s0)"
  have tn: "t < ?n" using Suc.hyps(2) by simp
  then have ts: "[t..<?n] = t # [Suc t..<?n]" by (rule upt_conv_Cons)
  show ?case
  proof (cases "?pos \<noteq> [] \<and> length ?pos = B * k")
    case True
    have stp: "step tk ds V u k supp True B t s0 =
        rbind (predict ds V u supp s0) (\<lambda>(cds, hs, log_p1).
             Inr (True, s0\<lparr>ctx_dicts := cds, h_ts := hs, idxs := ?pos\<rparr>))"
      unfolding step_early [of tk ds V u k supp B t s0] if_P [OF True] ..
    from Suc.prems(1) obtain r where r: "step tk ds V u k supp True B t s0 = Inr r"
      and rest: "(case r of (brk, s1) \<Rightarrow> if brk then Inr s1
                    else step_loop tk ds V u k supp True B [Suc t..<?n] s1) = Inr s"
      unfolding ts by (auto elim: rbind_InrE)
    from r obtain p where "predict ds V u supp s0 = Inr p"
      and "(case p of (cds, hs, log_p1) \<Rightarrow>
             Inr (True, s0\<lparr>ctx_dicts := cds, h_ts := hs, idxs := ?pos\<rparr>)) = (Inr r :: error + _)"
      unfolding stp by (rule rbind_InrE)
    then have "\<exists>cds hs. r = (True, s0\<lparr>ctx_dicts := cds, h_ts := hs, idxs := ?pos\<rparr>)"
      by (cases p) auto
    then obtain cds hs where "s = s0\<lparr>ctx_dicts := cds, h_ts := hs, idxs := ?pos\<rparr>"
      using rest by auto
    then have s: "beam s = beam s0" "nll s = nll s0" by simp_all
    have shape: "beam_shape B k (beam s0)"
      and zero: "\<forall>t'. t \<le> t' \<and> t' < ?n \<longrightarrow> beam s0 ! t' = replicate B (replicate k 0)"
      using Suc.prems(3) by (auto simp: started_def)
    have "2 \<in> set (idxs s0)"
    proof -
      obtain i where "i \<in> set ?pos" using True by (cases ?pos) auto
      then have "i < length (idxs s0)" "idxs s0 ! i = 2" by (auto simp: nonzero_eos_set)
      then show ?thesis using nth_mem [of i "idxs s0"] by simp
    qed
    then have nl: "length (nll s0) = B" "\<forall>r \<in> set (nll s0). length r = k"
      and tp: "0 < t" "idxs s0 = concat (beam s0 ! (t - 1))"
      using Suc.prems(3) by (auto simp: started_def)
    let ?tp = "t - 1"
    have tpn: "?tp < ?n" using tn by simp
    have rowtp: "length (beam s0 ! ?tp) = B" "\<forall>r \<in> set (beam s0 ! ?tp). length r = k"
      using shape tpn by (auto simp: beam_shape_def)
    have lenidx: "length (idxs s0) = B * k"
      using length_concat_rect [OF rowtp(2)] rowtp(1) tp(2) by simp
    then have idx: "idxs s0 = replicate (B * k) 2"
      using nonzero_eos_full [of "idxs s0"] True by simp
    have pos: "0 < B * k"
    proof -
      have "?pos \<noteq> []" using True by (rule conjunct1)
      then have "0 < length ?pos" by simp
      also have "length ?pos = B * k" using True by (rule conjunct2)
      finally show ?thesis .
    qed
    have k: "0 < k" using pos by (cases k) auto
    have sp0: "within_inf (nll s0)" using spread s by simp
    have idle: "length (beam s') = length (beam s0) \<and> beam_shape B k (beam s') \<and>
     (\<exists>ps. length ps = B \<and> permuted k ps \<and> nll s' = slots_by ps (nll s0) \<and>
        (\<forall>t' < length (beam s0). beam s' ! t' =
           (if t' < t then slots_by ps (beam s0 ! t') else replicate B (replicate k 2))))"
      using Suc.prems(2) ok idx nl sp0 V pos shape by (rule idle_loop)
    then obtain ps where ps: "length ps = B" "permuted k ps" "nll s' = slots_by ps (nll s0)"
      and rows: "\<And>t'. t' < ?n \<Longrightarrow> beam s' ! t' =
           (if t' < t then slots_by ps (beam s0 ! t') else replicate B (replicate k 2))"
      by blast
    have two: "beam s0 ! ?tp = replicate B (replicate k 2)"
      using tp(2) idx rowtp by (intro concat_const_rect) simp_all
    have inner: "?tp < ?n \<and>
            beam s0 ! ?tp = replicate B (replicate k 2) \<and>
            (\<forall>t' \<le> ?tp. beam s' ! t' = slots_by ps (beam s0 ! t')) \<and>
            (\<forall>t'. ?tp < t' \<and> t' < ?n \<longrightarrow>
               beam s0 ! t' = replicate B (replicate k 0) \<and>
               beam s' ! t' = replicate B (replicate k 2))"
    proof (intro conjI allI impI)
      show "?tp < ?n" by (rule tpn)
      show "beam s0 ! ?tp = replicate B (replicate k 2)" by (rule two)
    next
      fix t' assume "t' \<le> ?tp"
      then have "t' < t" "t' < ?n" using tp(1) tn by arith+
      then show "beam s' ! t' = slots_by ps (beam s0 ! t')" using rows by simp
    next
      fix t' assume a: "?tp < t' \<and> t' < ?n"
      then have le: "t \<le> t'" by arith
      then show "beam s0 ! t' = replicate B (replicate k 0)" using zero a by simp
      have "\<not> t' < t" using le by simp
      then show "beam s' ! t' = replicate B (replicate k 2)" using rows [of t'] a by simp
    qed
    then have "\<exists>tp < ?n.
            beam s0 ! tp = replicate B (replicate k 2) \<and>
            (\<forall>t' \<le> tp. beam s' ! t' = slots_by ps (beam s0 ! t')) \<and>
            (\<forall>t'. tp < t' \<and> t' < ?n \<longrightarrow>
               beam s0 ! t' = replicate B (replicate k 0) \<and>
               beam s' ! t' = replicate B (replicate k 2))"
      by (intro exI [of _ ?tp])
    then have "length ps = B \<and> permuted k ps \<and> nll s' = slots_by ps (nll s0) \<and>
         (\<exists>tp < ?n.
            beam s0 ! tp = replicate B (replicate k 2) \<and>
            (\<forall>t' \<le> tp. beam s' ! t' = slots_by ps (beam s0 ! t')) \<and>
            (\<forall>t'. tp < t' \<and> t' < ?n \<longrightarrow>
               beam s0 ! t' = replicate B (replicate k 0) \<and>
               beam s' ! t' = replicate B (replicate k 2)))"
      using ps by simp
    then have ex: "\<exists>ps. length ps = B \<and> permuted k ps \<and> nll s' = slots_by ps (nll s0) \<and>
         (\<exists>tp < ?n.
            beam s0 ! tp = replicate B (replicate k 2) \<and>
            (\<forall>t' \<le> tp. beam s' ! t' = slots_by ps (beam s0 ! t')) \<and>
            (\<forall>t'. tp < t' \<and> t' < ?n \<longrightarrow>
               beam s0 ! t' = replicate B (replicate k 0) \<and>
               beam s' ! t' = replicate B (replicate k 2)))"
      by (rule exI [where x = ps])
    have "exited_early B k s s'"
      unfolding exited_early_def s
      using k conjunct1 [OF idle] shape conjunct1 [OF conjunct2 [OF idle]] nl ex
      by (intro conjI)
    then show ?thesis by simp
  next
    case False
    have same: "step tk ds V u k supp True B t s0 = step tk ds V u k supp False B t s0"
      unfolding step_early [of tk ds V u k supp B t s0] if_not_P [OF False] ..
    from Suc.prems(2) obtain r where r: "step tk ds V u k supp False B t s0 = Inr r"
      and rest: "(case r of (brk, s1) \<Rightarrow> if brk then Inr s1
                    else step_loop tk ds V u k supp False B [Suc t..<?n] s1) = Inr s'"
      unfolding ts by (auto elim: rbind_InrE)
    obtain brk s1 where rq: "r = (brk, s1)" by (cases r) auto
    have nb: "\<not> brk" using r unfolding rq by (rule step_full_continues)
    have st: "step tk ds V u k supp False B t s0 = Inr (False, s1)" using r nb rq by simp
    have inv1: "started B k (Suc t) s1" and len1: "length (beam s1) = ?n"
      using step_started [OF st Suc.prems(3) ok] by simp_all
    have full1: "step_loop tk ds V u k supp False B [Suc t..<length (beam s1)] s1 = Inr s'"
      using rest nb unfolding len1 by (simp add: rq)
    have early1: "step_loop tk ds V u k supp True B [Suc t..<length (beam s1)] s1 = Inr s"
      using Suc.prems(1) st unfolding ts len1 by (simp add: same rbind_def)
    have m: "m = length (beam s1) - Suc t" using Suc.hyps(2) len1 by simp
    show ?thesis using m early1 full1 inv1 by (rule Suc.hyps(1))
  qed
qed

lemma tk_one_best:
  assumes ok: "is_topk tk" and m: "m < length row"
    and best: "\<And>j. j < length row \<Longrightarrow> j \<noteq> m \<Longrightarrow> row ! j < row ! m"
  shows "tk 1 row = Inr [(row ! m, m)]"
proof -
  have "1 \<le> length row" using m by simp
  then obtain r where r: "tk 1 row = Inr r" using is_topk_returns [OF ok] by blast
  have l: "length r = 1"
    and valid: "\<And>p. p \<in> set r \<Longrightarrow> snd p < length row \<and> fst p = row ! snd p"
    and top: "\<And>i p. i < length row \<Longrightarrow> i \<notin> snd ` set r \<Longrightarrow> p \<in> set r \<Longrightarrow> row ! i \<le> fst p"
    using is_topk_Inr [OF ok r] by blast+
  obtain e where e: "r = [e]" using l by (cases r) auto
  have v: "snd e < length row" "fst e = row ! snd e" using valid [of e] e by simp_all
  have "snd e = m"
  proof (rule ccontr)
    assume ne: "snd e \<noteq> m"
    then have "m \<notin> snd ` set r" using e by simp
    then have "row ! m \<le> fst e" using top [OF m] e by simp
    moreover have "row ! snd e < row ! m" using best [OF v(1) ne] .
    ultimately show False using v(2) by simp
  qed
  then have "e = (row ! m, m)" using v(2) by (cases e) simp
  then show ?thesis using r e by simp
qed

text \<open>
  Lines 159-174 when the best normalised score of every sample is attained by one slot
  only: the sentence of that slot is returned.
\<close>

lemma finish_best:
  assumes ok: "is_topk tk"
    and pe: "put_eos max_len (eos vocab) (beam s) = Inr bm"
    and dn: "div_nll (nll s) (normalizer lp_alpha B k bm) = Inr fs"
    and lfs: "length fs = B"
    and best: "\<And>b. b < B \<Longrightarrow> ms b < k \<and> length (fs ! b) = k \<and>
                 (\<forall>j < k. j \<noteq> ms b \<longrightarrow> fs ! b ! j < fs ! b ! ms b)"
    and shape: "beam_shape B k bm" and ne: "bm \<noteq> []"
  shows "map_sum id snd (finish tk vocab max_len lp_alpha k B sto s)
           = Inr (map (\<lambda>b. idxs_to_sent vocab (map (\<lambda>row. row ! b ! ms b) bm)) [0..<B])"
proof -
  let ?sel = "map (\<lambda>b. [(fs ! b ! ms b, ms b)]) [0..<B]"
  have "\<forall>i < length fs. tk 1 (fs ! i) = Inr (?sel ! i)"
  proof (intro allI impI)
    fix i assume "i < length fs"
    then have i: "i < B" using lfs by simp
    have "tk 1 (fs ! i) = Inr [(fs ! i ! ms i, ms i)]"
      using ok
    proof (rule tk_one_best)
      show "ms i < length (fs ! i)" using best [OF i] by simp
      fix j assume "j < length (fs ! i)" "j \<noteq> ms i"
      then show "fs ! i ! j < fs ! i ! ms i" using best [OF i] by simp
    qed
    then show "tk 1 (fs ! i) = Inr (?sel ! i)" using i by simp
  qed
  then have sel: "mapM (tk 1) fs = Inr ?sel"
    using lfs by (simp add: mapM_Inr_iff)
  have th: "map (\<lambda>r. snd (hd r)) ?sel = map ms [0..<B]" by (simp add: o_def)
  have "select_hyps B bm (map ms [0..<B])
      = Inr (map (\<lambda>b. map (\<lambda>row. row ! b ! (map ms [0..<B] ! b)) bm) [0..<B])"
    using best unfolding select_hyps_shaped [OF shape ne] by simp
  also have "map (\<lambda>b. map (\<lambda>row. row ! b ! (map ms [0..<B] ! b)) bm) [0..<B]
      = map (\<lambda>b. map (\<lambda>row. row ! b ! ms b) bm) [0..<B]"
    by (intro map_cong) simp_all
  finally have hy: "select_hyps B bm (map ms [0..<B])
      = Inr (map (\<lambda>b. map (\<lambda>row. row ! b ! ms b) bm) [0..<B])" .
  show ?thesis
    unfolding finish_def map_sum_rbind pe dn rbind_Inr sel Let_def th hy
    by (simp add: list_of_idxs_to_sents_def o_def)
qed

lemma div_nll_cells:
  assumes "length nl = B" and "\<forall>r \<in> set nl. length r = k"
    and "length lp = B" and "\<forall>r \<in> set lp. length r = k"
  shows "\<exists>fs. div_nll nl lp = Inr fs \<and> length fs = B \<and>
           (\<forall>b < B. length (fs ! b) = k \<and> (\<forall>j < k. fs ! b ! j = nl ! b ! j / lp ! b ! j))"
proof -
  have "map length nl = map (\<lambda>_. k) nl" using assms(2) by (intro map_cong) simp_all
  moreover have "map length lp = map (\<lambda>_. k) lp" using assms(4) by (intro map_cong) simp_all
  ultimately have "map length nl = map length lp"
    using assms(1,3) by (simp add: map_replicate_const)
  then have d: "div_nll nl lp = Inr (map2 (map2 (/)) nl lp)" by (simp add: div_nll_def)
  have "\<forall>b < B. length (map2 (map2 (/)) nl lp ! b) = k \<and>
          (\<forall>j < k. map2 (map2 (/)) nl lp ! b ! j = nl ! b ! j / lp ! b ! j)"
  proof (intro allI impI)
    fix b assume b: "b < B"
    have "length (nl ! b) = k" "length (lp ! b) = k" using assms b by simp_all
    then show "length (map2 (map2 (/)) nl lp ! b) = k \<and>
          (\<forall>j < k. map2 (map2 (/)) nl lp ! b ! j = nl ! b ! j / lp ! b ! j)"
      using b assms(1,3) by simp
  qed
  moreover have "length (map2 (map2 (/)) nl lp) = B" using assms(1,3) by simp
  ultimately show ?thesis using d by blast
qed

lemma normalizer_nth:
  assumes "b < B" and "j < k"
  shows "normalizer lp_alpha B k bm ! b ! j = length_penalty lp_alpha (lengths B k bm ! b ! j)"
    and "length (normalizer lp_alpha B k bm) = B"
    and "\<forall>r \<in> set (normalizer lp_alpha B k bm). length r = k"
proof -
  have "length (lengths B k bm) = B" and "length (lengths B k bm ! b) = k"
    using assms by (simp_all add: lengths_def)
  then show "normalizer lp_alpha B k bm ! b ! j = length_penalty lp_alpha (lengths B k bm ! b ! j)"
    using assms by (simp add: normalizer_def)
  show "length (normalizer lp_alpha B k bm) = B" by (simp add: normalizer_def lengths_def)
  show "\<forall>r \<in> set (normalizer lp_alpha B k bm). length r = k"
    by (auto simp: normalizer_def lengths_def)
qed

lemma normalizer_shape:
  "length (normalizer lp_alpha B k bm) = B"
  "\<forall>r \<in> set (normalizer lp_alpha B k bm). length r = k"
  by (auto simp: normalizer_def lengths_def)

lemma slots_by_cell:
  assumes "length ps = B" and "permuted k ps" and "length row = B" and "b < B" and "j < k"
  shows "slots_by ps row ! b ! j = row ! b ! (ps ! b ! j)"
proof -
  have "length (ps ! b) = k" using permuted_nth(1) [OF assms(2)] assms(1,4) by simp
  then show ?thesis using assms by (simp add: slots_by_nth)
qed

text \<open>
  Lines 159-174 give the same sentences on both states when the best normalised score
  of every sample is attained by one slot only: the rows that differ hold tokens that
  the lengths do not count, they lie behind the first \<open>eos\<close> of every hypothesis, and
  the slots are only rearranged.
\<close>

lemma finish_exited:
  assumes rel: "exited_early B k s s'" and eos: "eos vocab = 2" and ok: "is_topk tk"
    and fsc: "final_scores max_len (eos vocab) lp_alpha k B s = Inr fs" and ob: "one_best fs"
  shows "map_sum id snd (finish tk vocab max_len lp_alpha k B sto1 s)
       = map_sum id snd (finish tk vocab max_len lp_alpha k B sto2 s')"
proof -
  let ?L = "length (beam s)"
  let ?two = "replicate B (replicate k (2::nat))"
  let ?zero = "replicate B (replicate k (0::nat))"
  let ?m = "max_len - 1"
  from rel obtain ps tp where len: "length (beam s') = ?L"
    and sh: "beam_shape B k (beam s)" and sh': "beam_shape B k (beam s')"
    and lnl: "length (nll s) = B" and rnl: "\<forall>r \<in> set (nll s). length r = k"
    and ps: "length ps = B" "permuted k ps" and nll': "nll s' = slots_by ps (nll s)"
    and tp: "tp < ?L" "beam s ! tp = ?two" "\<forall>t' \<le> tp. beam s' ! t' = slots_by ps (beam s ! t')"
    and later: "\<forall>t'. tp < t' \<and> t' < ?L \<longrightarrow> beam s ! t' = ?zero \<and> beam s' ! t' = ?two"
    unfolding exited_early_def by blast
  from fsc obtain e where pe: "put_eos max_len (eos vocab) (beam s) = Inr e"
    and dn: "div_nll (nll s) (normalizer lp_alpha B k e) = Inr fs"
    unfolding final_scores_def by (rule rbind_InrE)
  have ml: "0 < max_len \<and> max_len \<le> ?L"
  proof (rule ccontr)
    assume n: "\<not> (0 < max_len \<and> max_len \<le> ?L)"
    have "put_eos max_len (eos vocab) (beam s) = Inl IndexError"
      unfolding put_eos_shaped [OF sh] by (rule if_not_P [OF n])
    then show False using pe by simp
  qed
  have m: "?m < ?L" using ml by arith
  have e: "e = (beam s)[?m := ?two]"
    using pe unfolding put_eos_shaped [OF sh] if_P [OF ml] eos by simp
  define f where "f = (beam s')[?m := ?two]"
  have pf: "put_eos max_len (eos vocab) (beam s') = Inr f"
    unfolding put_eos_shaped [OF sh'] len if_P [OF ml] eos f_def ..
  have she: "beam_shape B k e" unfolding e using sh by (rule update_shape)
  have shf: "beam_shape B k f" unfolding f_def using sh' by (rule update_shape)
  have le: "length e = ?L" and lf: "length f = ?L" using len by (simp_all add: e f_def)
  have ne: "e \<noteq> []" "f \<noteq> []" using m le lf by auto
  have psk: "\<And>b j. b < B \<Longrightarrow> j < k \<Longrightarrow> ps ! b ! j < k"
    using permuted_nth(4) [OF ps(2)] ps(1) by simp
  have rowB: "\<And>t'. t' < ?L \<Longrightarrow> length (beam s ! t') = B"
    using sh by (simp add: beam_shape_def)
  have em: "e ! ?m = ?two" and fm: "f ! ?m = ?two" using m len by (simp_all add: e f_def)
  have eo: "\<And>t'. t' \<noteq> ?m \<Longrightarrow> e ! t' = beam s ! t'" by (simp add: e)
  have fo: "\<And>t'. t' \<noteq> ?m \<Longrightarrow> f ! t' = beam s' ! t'" by (simp add: f_def)
  have R1: "\<And>t' b j. t' \<le> tp \<Longrightarrow> b < B \<Longrightarrow> j < k \<Longrightarrow> f ! t' ! b ! j = e ! t' ! b ! (ps ! b ! j)"
  proof -
    fix t' b j assume t': "t' \<le> tp" and b: "b < B" and j: "j < k"
    show "f ! t' ! b ! j = e ! t' ! b ! (ps ! b ! j)"
    proof (cases "t' = ?m")
      case True
      then show ?thesis using em fm b j psk [OF b j] by simp
    next
      case False
      have "t' < ?L" using t' tp(1) by simp
      then have "slots_by ps (beam s ! t') ! b ! j = beam s ! t' ! b ! (ps ! b ! j)"
        using slots_by_cell [OF ps rowB b j] by simp
      then show ?thesis using eo [OF False] fo [OF False] tp(3) t' by simp
    qed
  qed
  have R2: "\<And>t' b j. t' < ?L \<Longrightarrow> b < B \<Longrightarrow> j < k \<Longrightarrow>
              (f ! t' ! b ! j > 2) = (e ! t' ! b ! (ps ! b ! j) > 2)"
  proof -
    fix t' b j assume t': "t' < ?L" and b: "b < B" and j: "j < k"
    show "(f ! t' ! b ! j > 2) = (e ! t' ! b ! (ps ! b ! j) > 2)"
    proof (cases "t' \<le> tp")
      case True
      then show ?thesis using R1 [OF True b j] by simp
    next
      case False
      show ?thesis
      proof (cases "t' = ?m")
        case True
        then show ?thesis using em fm b j psk [OF b j] by simp
      next
        case nm: False
        have "beam s ! t' = ?zero \<and> beam s' ! t' = ?two" using later False t' by simp
        then show ?thesis using eo [OF nm] fo [OF nm] b j psk [OF b j] by simp
      qed
    qed
  qed
  have E2: "\<And>b j. b < B \<Longrightarrow> j < k \<Longrightarrow> e ! tp ! b ! j = 2"
  proof -
    fix b j assume b: "b < B" and j: "j < k"
    show "e ! tp ! b ! j = 2"
    proof (cases "tp = ?m")
      case True
      then show ?thesis using em b j by simp
    next
      case False
      then show ?thesis using eo [OF False] tp(2) b j by simp
    qed
  qed
  have LEN: "\<And>b j. b < B \<Longrightarrow> j < k \<Longrightarrow> lengths B k f ! b ! j = lengths B k e ! b ! (ps ! b ! j)"
  proof -
    fix b j assume b: "b < B" and j: "j < k"
    have "{t. t < length f \<and> f ! t ! b ! j > 2} = {t. t < length e \<and> e ! t ! b ! (ps ! b ! j) > 2}"
      using R2 [OF _ b j] le lf by auto
    then show "lengths B k f ! b ! j = lengths B k e ! b ! (ps ! b ! j)"
      using lengths_nth [OF b j, of f] lengths_nth [OF b psk [OF b j], of e] by simp
  qed
  have NORM: "\<And>b j. b < B \<Longrightarrow> j < k \<Longrightarrow>
      normalizer lp_alpha B k f ! b ! j = normalizer lp_alpha B k e ! b ! (ps ! b ! j)"
    using LEN normalizer_nth(1) psk by simp
  obtain fs0 where "div_nll (nll s) (normalizer lp_alpha B k e) = Inr fs0" and "length fs0 = B"
    and "\<forall>b < B. length (fs0 ! b) = k \<and>
           (\<forall>j < k. fs0 ! b ! j = nll s ! b ! j / normalizer lp_alpha B k e ! b ! j)"
    using div_nll_cells [OF lnl rnl normalizer_shape] by blast
  then have lfs: "length fs = B"
    and cfs: "\<And>b. b < B \<Longrightarrow> length (fs ! b) = k"
    and vfs: "\<And>b j. b < B \<Longrightarrow> j < k \<Longrightarrow>
               fs ! b ! j = nll s ! b ! j / normalizer lp_alpha B k e ! b ! j"
    using dn by simp_all
  have lnl': "length (nll s') = B" and rnl': "\<forall>r \<in> set (nll s'). length r = k"
    unfolding nll' using slots_by_shape [OF ps lnl] by simp_all
  obtain fs' where dn': "div_nll (nll s') (normalizer lp_alpha B k f) = Inr fs'"
    and lfs': "length fs' = B"
    and c': "\<forall>b < B. length (fs' ! b) = k \<and>
           (\<forall>j < k. fs' ! b ! j = nll s' ! b ! j / normalizer lp_alpha B k f ! b ! j)"
    using div_nll_cells [OF lnl' rnl' normalizer_shape] by blast
  have vfs': "\<And>b j. b < B \<Longrightarrow> j < k \<Longrightarrow> fs' ! b ! j = fs ! b ! (ps ! b ! j)"
  proof -
    fix b j assume b: "b < B" and j: "j < k"
    have "nll s' ! b ! j = nll s ! b ! (ps ! b ! j)"
      unfolding nll' using slots_by_cell [OF ps lnl b j] .
    then show "fs' ! b ! j = fs ! b ! (ps ! b ! j)"
      using c' b j NORM [OF b j] vfs [OF b psk [OF b j]] by simp
  qed
  have "\<forall>b. \<exists>m. b < B \<longrightarrow> m < k \<and> (\<forall>j < k. j \<noteq> m \<longrightarrow> fs ! b ! j < fs ! b ! m)"
  proof (intro allI)
    fix b
    show "\<exists>m. b < B \<longrightarrow> m < k \<and> (\<forall>j < k. j \<noteq> m \<longrightarrow> fs ! b ! j < fs ! b ! m)"
    proof (cases "b < B")
      case True
      then have "fs ! b \<in> set fs" using lfs by simp
      then obtain m where "m \<in> set [0..<length (fs ! b)]"
        and "\<forall>j \<in> set [0..<length (fs ! b)]. j \<noteq> m \<longrightarrow> fs ! b ! j < fs ! b ! m"
        using ob unfolding one_best_def by blast
      then have "m < k \<and> (\<forall>j < k. j \<noteq> m \<longrightarrow> fs ! b ! j < fs ! b ! m)"
        using cfs [OF True] by simp
      then show ?thesis by blast
    next
      case False
      then show ?thesis by simp
    qed
  qed
  then obtain ms where ms: "\<And>b. b < B \<Longrightarrow> ms b < k \<and> (\<forall>j < k. j \<noteq> ms b \<longrightarrow> fs ! b ! j < fs ! b ! ms b)"
    using choice [of "\<lambda>b m. b < B \<longrightarrow> m < k \<and> (\<forall>j < k. j \<noteq> m \<longrightarrow> fs ! b ! j < fs ! b ! m)"]
    by blast
  have "\<forall>b. \<exists>m'. b < B \<longrightarrow> m' < k \<and> ps ! b ! m' = ms b"
  proof (intro allI)
    fix b
    show "\<exists>m'. b < B \<longrightarrow> m' < k \<and> ps ! b ! m' = ms b"
    proof (cases "b < B")
      case True
      have "ms b \<in> set (ps ! b)"
        using permuted_nth(2) [OF ps(2)] ps(1) True ms [OF True] by simp
      then obtain m' where "m' < length (ps ! b)" "ps ! b ! m' = ms b"
        unfolding in_set_conv_nth by blast
      then show ?thesis using permuted_nth(1) [OF ps(2)] ps(1) True by auto
    next
      case False
      then show ?thesis by simp
    qed
  qed
  then obtain ms' where ms': "\<And>b. b < B \<Longrightarrow> ms' b < k \<and> ps ! b ! ms' b = ms b"
    using choice [of "\<lambda>b m'. b < B \<longrightarrow> m' < k \<and> ps ! b ! m' = ms b"] by blast
  have best: "\<And>b. b < B \<Longrightarrow> ms b < k \<and> length (fs ! b) = k \<and>
                 (\<forall>j < k. j \<noteq> ms b \<longrightarrow> fs ! b ! j < fs ! b ! ms b)"
    using ms cfs by simp
  have best': "\<And>b. b < B \<Longrightarrow> ms' b < k \<and> length (fs' ! b) = k \<and>
                 (\<forall>j < k. j \<noteq> ms' b \<longrightarrow> fs' ! b ! j < fs' ! b ! ms' b)"
  proof -
    fix b assume b: "b < B"
    have mk: "ms' b < k" and pm: "ps ! b ! ms' b = ms b" using ms' [OF b] by simp_all
    have d: "distinct (ps ! b)" and lp: "length (ps ! b) = k"
      using permuted_nth(1,3) [OF ps(2)] ps(1) b by simp_all
    have "\<forall>j < k. j \<noteq> ms' b \<longrightarrow> fs' ! b ! j < fs' ! b ! ms' b"
    proof (intro allI impI)
      fix j assume j: "j < k" and nj: "j \<noteq> ms' b"
      have "ps ! b ! j \<noteq> ps ! b ! ms' b"
        using nth_eq_iff_index_eq [OF d, of j "ms' b"] j mk lp nj by simp
      then have "fs ! b ! (ps ! b ! j) < fs ! b ! ms b"
        using ms [OF b] psk [OF b j] pm by simp
      then show "fs' ! b ! j < fs' ! b ! ms' b"
        using vfs' [OF b j] vfs' [OF b mk] pm by simp
    qed
    then show "ms' b < k \<and> length (fs' ! b) = k \<and>
                 (\<forall>j < k. j \<noteq> ms' b \<longrightarrow> fs' ! b ! j < fs' ! b ! ms' b)"
      using mk c' b by simp
  qed
  have A: "map_sum id snd (finish tk vocab max_len lp_alpha k B sto1 s)
           = Inr (map (\<lambda>b. idxs_to_sent vocab (map (\<lambda>row. row ! b ! ms b) e)) [0..<B])"
    using ok pe dn lfs best she ne(1) by (rule finish_best)
  have A': "map_sum id snd (finish tk vocab max_len lp_alpha k B sto2 s')
           = Inr (map (\<lambda>b. idxs_to_sent vocab (map (\<lambda>row. row ! b ! ms' b) f)) [0..<B])"
    using ok pf dn' lfs' best' shf ne(2) by (rule finish_best)
  have "map (\<lambda>b. idxs_to_sent vocab (map (\<lambda>row. row ! b ! ms b) e)) [0..<B]
      = map (\<lambda>b. idxs_to_sent vocab (map (\<lambda>row. row ! b ! ms' b) f)) [0..<B]"
  proof (rule map_cong [OF refl])
    fix b assume "b \<in> set [0..<B]"
    then have b: "b < B" by simp
    have mk: "ms' b < k" and pm: "ps ! b ! ms' b = ms b" using ms' [OF b] by simp_all
    have "takeWhile (\<lambda>i. i \<noteq> 2) (map (\<lambda>row. row ! b ! ms b) e)
        = takeWhile (\<lambda>i. i \<noteq> 2) (map (\<lambda>row. row ! b ! ms' b) f)"
    proof (rule takeWhile_agree [of tp])
      show "tp < length (map (\<lambda>row. row ! b ! ms b) e)" using tp(1) le by simp
      show "tp < length (map (\<lambda>row. row ! b ! ms' b) f)" using tp(1) lf by simp
      show "\<forall>i \<le> tp. map (\<lambda>row. row ! b ! ms b) e ! i = map (\<lambda>row. row ! b ! ms' b) f ! i"
      proof (intro allI impI)
        fix i assume i: "i \<le> tp"
        then have "i < ?L" using tp(1) by simp
        then show "map (\<lambda>row. row ! b ! ms b) e ! i = map (\<lambda>row. row ! b ! ms' b) f ! i"
          using R1 [OF i b mk] pm le lf by simp
      qed
      show "\<not> map (\<lambda>row. row ! b ! ms b) e ! tp \<noteq> 2"
        using E2 [OF b, of "ms b"] ms [OF b] tp(1) le by simp
    qed
    then show "idxs_to_sent vocab (map (\<lambda>row. row ! b ! ms b) e)
             = idxs_to_sent vocab (map (\<lambda>row. row ! b ! ms' b) f)"
      by (simp add: idxs_to_sent_def eos)
  qed
  then show ?thesis unfolding A A' by simp
qed

lemma init_state_started:
  assumes "storage_ok max_len mb k sto" and "B \<le> mb" and "2 \<notin> set (get_bos (hd models) B)"
  shows "started B k 0 (init_state models ds enc_args B sto batch)"
    and "length (beam (init_state models ds enc_args B sto batch)) = max_len"
proof -
  let ?s = "init_state models ds enc_args B sto batch"
  have bm: "beam ?s = replicate max_len (replicate B (replicate k 0))"
    using assms(1,2) by (rule init_state_storage(3))
  show "length (beam ?s) = max_len" unfolding bm by simp
  have ix: "idxs ?s = get_bos (hd models) B"
    by (simp add: init_state_def Let_def)
  have "beam_shape B k (beam ?s)"
    unfolding bm by (simp add: beam_shape_def)
  moreover have "\<forall>t'. 0 \<le> t' \<and> t' < length (beam ?s) \<longrightarrow> beam ?s ! t' = replicate B (replicate k 0)"
    unfolding bm by simp
  moreover have "2 \<notin> set (idxs ?s)"
    unfolding ix by (rule assms(3))
  ultimately show "started B k 0 ?s"
    unfolding started_def by blast
qed

text \<open>
  Claim C5, with the hypotheses it needs. For every top-k that torch's contract
  admits, the loop with the early exit and the loop that runs all \<open>max_len\<close> steps
  decode a batch to the same sentences, provided that, in the state the loop with the
  exit leaves, the scores of the slots of every sample lie less than \<open>1000\<close> apart (the
  magnitude of the constant \<open>inf\<close> that pins a finished slot) and the best
  length-normalised score of every sample is attained by one slot only. The
  vocabulary has \<open>eos = 2\<close> (the literal of line 127) and more than two ids, and no
  start token is \<open>2\<close>.
\<close>

theorem early_exit_same_results:
  assumes ok: "is_topk tk"
    and sto: "storage_ok max_len mb k sto" and B: "size_b batch \<le> mb"
    and eos: "eos vocab = 2" and V: "2 < n_vocab vocab"
    and bos: "2 \<notin> set (get_bos (hd models) (size_b batch))"
    and scores: "map_sum id nll (step_loop tk ds (n_vocab vocab) (unk vocab) k supp True (size_b batch)
                   [0..<max_len] (init_state models ds enc_args (size_b batch) sto batch)) = Inr nl"
    and spread: "within_inf nl"
    and norm: "rbind (step_loop tk ds (n_vocab vocab) (unk vocab) k supp True (size_b batch)
                   [0..<max_len] (init_state models ds enc_args (size_b batch) sto batch))
                 (final_scores max_len (eos vocab) lp_alpha k (size_b batch)) = Inr fs"
    and best: "one_best fs"
    and full: "decode_batch tk models ds vocab enc_args mb k max_len lp_alpha supp False sto batch
                 = Inr (sto', sents)"
  shows "map_sum id snd (decode_batch tk models ds vocab enc_args mb k max_len lp_alpha supp True sto batch)
           = Inr sents"
proof -
  let ?B = "size_b batch"
  let ?s0 = "init_state models ds enc_args ?B sto batch"
  let ?sto = "sto\<lparr>beam_storage := zero_view ?B (beam_storage sto)\<rparr>"
  from norm obtain s where early: "step_loop tk ds (n_vocab vocab) (unk vocab) k supp True ?B [0..<max_len] ?s0 = Inr s"
    and fsc: "final_scores max_len (eos vocab) lp_alpha k ?B s = Inr fs"
    by (rule rbind_InrE)
  have nl: "nll s = nl" using scores unfolding early by simp
  from full obtain s' where loop: "step_loop tk ds (n_vocab vocab) (unk vocab) k supp False ?B [0..<max_len] ?s0 = Inr s'"
    and fin: "finish tk vocab max_len lp_alpha k ?B ?sto s' = Inr (sto', sents)"
    by (rule decode_batch_InrE)
  have st: "started ?B k 0 ?s0" and len: "length (beam ?s0) = max_len"
    using init_state_started [OF sto B bos] by simp_all
  have sp: "within_inf (nll s)" using spread nl by simp
  have "(nll s' = nll s \<and> beam s' = beam s) \<or> exited_early ?B k s s'"
    using early loop st ok V sp unfolding len [symmetric] by (rule early_exit_loop)
  then have "map_sum id snd (finish tk vocab max_len lp_alpha k ?B ?sto s)
           = map_sum id snd (finish tk vocab max_len lp_alpha k ?B ?sto s')"
  proof
    assume "nll s' = nll s \<and> beam s' = beam s"
    then show ?thesis using finish_same [of s' s] by blast
  next
    assume "exited_early ?B k s s'"
    then show ?thesis using eos ok fsc best by (rule finish_exited)
  qed
  also have "\<dots> = Inr sents" using fin by simp
  finally have "map_sum id snd (finish tk vocab max_len lp_alpha k ?B ?sto s) = Inr sents" .
  moreover have "decode_batch tk models ds vocab enc_args mb k max_len lp_alpha supp True sto batch
       = finish tk vocab max_len lp_alpha k ?B ?sto s"
    using B early by (simp add: decode_batch_def Let_def rbind_def)
  ultimately show ?thesis by simp
qed

theorem early_exit_same_results_witness:
  "map_sum id nll (step_loop topk [toy_dec table_pin] 6 3 2 False True 1 [0..<4]
      (init_state [toy_model vocab6 table_pin] [toy_dec table_pin] None 1 (fresh_storage 4 1 2)
         \<lparr>size_b = 1, content = [0]\<rparr>)) = Inr [[- (3 / 8), - (9 / 4)]] \<and>
   within_inf [[- (3 / 8), - (9 / 4)]] \<and>
   rbind (step_loop topk [toy_dec table_pin] 6 3 2 False True 1 [0..<4]
      (init_state [toy_model vocab6 table_pin] [toy_dec table_pin] None 1 (fresh_storage 4 1 2)
         \<lparr>size_b = 1, content = [0]\<rparr>)) (final_scores 4 2 0 2 1) = Inr [[- (3 / 8), - (9 / 4)]] \<and>
   one_best [[- (3 / 8), - (9 / 4)]] \<and>
   map_sum id snd (decode_batch topk [toy_model vocab6 table_pin] [toy_dec table_pin] vocab6 None 1 2 4 0 False False
      (fresh_storage 4 1 2) \<lparr>size_b = 1, content = [0]\<rparr>) = Inr [''a''] \<and>
   map_sum id snd (decode_batch topk [toy_model vocab6 table_pin] [toy_dec table_pin] vocab6 None 1 2 4 0 False True
      (fresh_storage 4 1 2) \<lparr>size_b = 1, content = [0]\<rparr>) = Inr [''a'']"
proof -
  have sto: "storage_ok 4 1 2 (fresh_storage 4 1 2)" by (rule fresh_storage_ok)
  have B: "size_b \<lparr>size_b = 1, content = [0::nat]\<rparr> \<le> 1" by simp
  have eos: "eos vocab6 = 2" by (simp add: vocab6_def)
  have V: "2 < n_vocab vocab6" by (simp add: vocab6_def)
  have bos: "2 \<notin> set (get_bos (hd [toy_model vocab6 table_pin]) (size_b \<lparr>size_b = 1, content = [0::nat]\<rparr>))"
    by (simp add: toy_model_def)
  have scores: "map_sum id nll (step_loop topk [toy_dec table_pin] (n_vocab vocab6) (unk vocab6) 2 False True
      (size_b \<lparr>size_b = 1, content = [0::nat]\<rparr>) [0..<4]
      (init_state [toy_model vocab6 table_pin] [toy_dec table_pin] None (size_b \<lparr>size_b = 1, content = [0::nat]\<rparr>)
         (fresh_storage 4 1 2) \<lparr>size_b = 1, content = [0]\<rparr>)) = Inr [[- (3 / 8), - (9 / 4)]]"
    by code_simp
  have spread: "within_inf [[- (3 / 8), - (9 / 4)]]"
    by (simp add: within_inf_def inf_const_def)
  have norm: "rbind (step_loop topk [toy_dec table_pin] (n_vocab vocab6) (unk vocab6) 2 False True
      (size_b \<lparr>size_b = 1, content = [0::nat]\<rparr>) [0..<4]
      (init_state [toy_model vocab6 table_pin] [toy_dec table_pin] None (size_b \<lparr>size_b = 1, content = [0::nat]\<rparr>)
         (fresh_storage 4 1 2) \<lparr>size_b = 1, content = [0]\<rparr>))
      (final_scores 4 (eos vocab6) 0 2 (size_b \<lparr>size_b = 1, content = [0::nat]\<rparr>)) = Inr [[- (3 / 8), - (9 / 4)]]"
    by code_simp
  have best: "one_best [[- (3 / 8), - (9 / 4)]]"
    by (simp add: one_best_def)
  have full: "decode_batch topk [toy_model vocab6 table_pin] [toy_dec table_pin] vocab6 None 1 2 4 0 False False
      (fresh_storage 4 1 2) \<lparr>size_b = 1, content = [0]\<rparr>
    = Inr (\<lparr>beam_storage = [[[4, 2]], [[2, 2]], [[2, 2]], [[2, 2]]], nll_storage = [0]\<rparr>, [''a''])"
    by code_simp
  have s: "map_sum id nll (step_loop topk [toy_dec table_pin] 6 3 2 False True 1 [0..<4]
      (init_state [toy_model vocab6 table_pin] [toy_dec table_pin] None 1 (fresh_storage 4 1 2)
         \<lparr>size_b = 1, content = [0]\<rparr>)) = Inr [[- (3 / 8), - (9 / 4)]]"
    by code_simp
  have n: "rbind (step_loop topk [toy_dec table_pin] 6 3 2 False True 1 [0..<4]
      (init_state [toy_model vocab6 table_pin] [toy_dec table_pin] None 1 (fresh_storage 4 1 2)
         \<lparr>size_b = 1, content = [0]\<rparr>)) (final_scores 4 2 0 2 1) = Inr [[- (3 / 8), - (9 / 4)]]"
    by code_simp
  have r: "map_sum id snd (decode_batch topk [toy_model vocab6 table_pin] [toy_dec table_pin] vocab6 None 1 2 4 0
      False True (fresh_storage 4 1 2) \<lparr>size_b = 1, content = [0]\<rparr>) = Inr [''a'']"
    by (rule early_exit_same_results [OF topk_is_topk sto B eos V bos scores spread norm best full])
  show ?thesis
    using r s spread n best full by simp
qed

text \<open>
  Claim C5 as stated fails. After four steps both slots hold \<open>eos\<close>, with the scores
  \<open>-900\<close> (\<open>a <pad> <pad>\<close>, one counted token) and \<open>-2000\<close> (\<open>b b b\<close>, three
  counted tokens). The loop with the exit stops there and the normalised scores
  \<open>-900\<close> and \<open>-2000 / 3\<close> select \<open>b b b\<close>. The loop without the exit goes on, the
  pinned continuations of slot 0 at \<open>-1900\<close> rank out slot 1, and \<open>a <pad> <pad>\<close> is
  selected.
\<close>

theorem early_exit_changes_result:
  "map_sum id (\<lambda>s. (idxs s, nll s)) (step_loop topk [toy_dec table_far] 6 3 2 False True 1 [0..<4]
      (init_state [toy_model vocab6 table_far] [toy_dec table_far] None 1 (fresh_storage 6 1 2)
         \<lparr>size_b = 1, content = [0]\<rparr>)) = Inr ([2, 2], [[- 900, - 2000]]) \<and>
   map_sum id snd (decode_batch topk [toy_model vocab6 table_far] [toy_dec table_far] vocab6 None 1 2 6 0 False True
      (fresh_storage 6 1 2) \<lparr>size_b = 1, content = [0]\<rparr>) = Inr [''b b b''] \<and>
   map_sum id snd (decode_batch topk [toy_model vocab6 table_far] [toy_dec table_far] vocab6 None 1 2 6 0 False False
      (fresh_storage 6 1 2) \<lparr>size_b = 1, content = [0]\<rparr>) = Inr [''a <pad> <pad>'']"
proof (intro conjI)
  show "map_sum id (\<lambda>s. (idxs s, nll s)) (step_loop topk [toy_dec table_far] 6 3 2 False True 1 [0..<4]
      (init_state [toy_model vocab6 table_far] [toy_dec table_far] None 1 (fresh_storage 6 1 2)
         \<lparr>size_b = 1, content = [0]\<rparr>)) = Inr ([2, 2], [[- 900, - 2000]])"
    by code_simp
  show "map_sum id snd (decode_batch topk [toy_model vocab6 table_far] [toy_dec table_far] vocab6 None 1 2 6 0 False True
      (fresh_storage 6 1 2) \<lparr>size_b = 1, content = [0]\<rparr>) = Inr [''b b b'']"
    by code_simp
  show "map_sum id snd (decode_batch topk [toy_model vocab6 table_far] [toy_dec table_far] vocab6 None 1 2 6 0 False False
      (fresh_storage 6 1 2) \<lparr>size_b = 1, content = [0]\<rparr>) = Inr [''a <pad> <pad>'']"
    by code_simp
qed

text \<open>
  Lines 127-130: when every one of the \<open>B * k\<close> slots holds token \<open>2\<close>, the loop with
  the exit stops at this step, whatever steps remain.
\<close>

lemma step_loop_breaks:
  assumes "idxs s = replicate (B * k) 2" and "0 < B * k"
    and "predict ds V u supp s = Inr (cds, hs, log_p1)"
  shows "step_loop tk ds V u k supp True B (t # ts) s
           = Inr (s\<lparr>ctx_dicts := cds, h_ts := hs, idxs := [0..<B * k]\<rparr>)"
proof -
  have pos: "nonzero_eos (idxs s) = [0..<B * k]"
    unfolding assms(1) by (rule nonzero_eos_all)
  have ne: "[0..<B * k] \<noteq> []" using assms(2) by simp
  have "step tk ds V u k supp True B t s
          = Inr (True, s\<lparr>ctx_dicts := cds, h_ts := hs, idxs := [0..<B * k]\<rparr>)"
    using ne by (simp add: step_early pos assms(3) rbind_def)
  then show ?thesis by (simp add: rbind_def)
qed

lemma topk_by_pos_is_topk: "is_topk topk_by_pos"
  unfolding is_topk_def
proof (intro allI)
  fix k and xs :: "real list"
  let ?f = "\<lambda>(v :: real, i :: nat). - int i"
  show "if k \<le> length xs
        then (\<exists>r. topk_by_pos k xs = Inr r \<and> length r = k \<and> distinct (map snd r) \<and>
                  (\<forall>p \<in> set r. snd p < length xs \<and> fst p = xs ! snd p) \<and>
                  (\<forall>i < length xs. i \<notin> snd ` set r \<longrightarrow> (\<forall>p \<in> set r. xs ! i \<le> fst p)))
        else topk_by_pos k xs = Inl RuntimeError"
  proof (cases "k \<le> length xs")
    case False
    then show ?thesis by (simp add: topk_by_pos_def topk_def)
  next
    case True
    obtain r where r: "topk k xs = Inr r" using is_topk_returns [OF topk_is_topk True] by blast
    have l: "length r = k" and d: "distinct (map snd r)"
      and v: "\<And>p. p \<in> set r \<Longrightarrow> snd p < length xs \<and> fst p = xs ! snd p"
      and b: "\<And>i p. i < length xs \<Longrightarrow> i \<notin> snd ` set r \<Longrightarrow> p \<in> set r \<Longrightarrow> xs ! i \<le> fst p"
      using is_topk_Inr [OF topk_is_topk r] by blast+
    let ?r = "sort_key ?f r"
    have t: "topk_by_pos k xs = Inr ?r" by (simp add: topk_by_pos_def r)
    have "mset (map snd ?r) = mset (map snd r)" by (simp only: mset_map mset_sort)
    then have d': "distinct (map snd ?r)"
      using d mset_eq_imp_distinct_iff [of "map snd ?r" "map snd r"] by simp
    have s: "set ?r = set r" by simp
    have "length ?r = k \<and> distinct (map snd ?r) \<and>
          (\<forall>p \<in> set ?r. snd p < length xs \<and> fst p = xs ! snd p) \<and>
          (\<forall>i < length xs. i \<notin> snd ` set ?r \<longrightarrow> (\<forall>p \<in> set ?r. xs ! i \<le> fst p))"
      unfolding s using l d' v b by simp
    then show ?thesis unfolding if_P [OF True] using t by blast
  qed
qed

text \<open>
  The hypothesis on the normalised scores is needed. Under this top-k both slots hold
  \<open>eos\<close> after three steps with the scores \<open>-2\<close> (\<open>b b\<close>) and \<open>-1\<close> (\<open>a\<close>), which are
  within \<open>1000\<close>, and both normalised scores are \<open>-1\<close>. The loop with the exit returns
  \<open>b b\<close>; the step that the loop without the exit still runs lists the two slots in
  the other order, and \<open>a\<close> is returned.
\<close>

lemma tie_changes_result:
  "map_sum id nll (step_loop topk_by_pos [toy_dec table_tie] 6 3 2 False True 1 [0..<4]
      (init_state [toy_model vocab6 table_tie] [toy_dec table_tie] None 1 (fresh_storage 4 1 2)
         \<lparr>size_b = 1, content = [0]\<rparr>)) = Inr [[- 2, - 1]] \<and>
   within_inf [[- 2, - 1]] \<and>
   rbind (step_loop topk_by_pos [toy_dec table_tie] 6 3 2 False True 1 [0..<4]
      (init_state [toy_model vocab6 table_tie] [toy_dec table_tie] None 1 (fresh_storage 4 1 2)
         \<lparr>size_b = 1, content = [0]\<rparr>)) (final_scores 4 2 0 2 1) = Inr [[- 1, - 1]] \<and>
   map_sum id snd (decode_batch topk_by_pos [toy_model vocab6 table_tie] [toy_dec table_tie] vocab6 None 1 2 4 0
      False True (fresh_storage 4 1 2) \<lparr>size_b = 1, content = [0]\<rparr>) = Inr [''b b''] \<and>
   map_sum id snd (decode_batch topk_by_pos [toy_model vocab6 table_tie] [toy_dec table_tie] vocab6 None 1 2 4 0
      False False (fresh_storage 4 1 2) \<lparr>size_b = 1, content = [0]\<rparr>) = Inr [''a'']"
proof (intro conjI)
  show "map_sum id nll (step_loop topk_by_pos [toy_dec table_tie] 6 3 2 False True 1 [0..<4]
      (init_state [toy_model vocab6 table_tie] [toy_dec table_tie] None 1 (fresh_storage 4 1 2)
         \<lparr>size_b = 1, content = [0]\<rparr>)) = Inr [[- 2, - 1]]"
    by code_simp
  show "within_inf [[- 2, - 1]]" by (simp add: within_inf_def inf_const_def)
  show "rbind (step_loop topk_by_pos [toy_dec table_tie] 6 3 2 False True 1 [0..<4]
      (init_state [toy_model vocab6 table_tie] [toy_dec table_tie] None 1 (fresh_storage 4 1 2)
         \<lparr>size_b = 1, content = [0]\<rparr>)) (final_scores 4 2 0 2 1) = Inr [[- 1, - 1]]"
    by code_simp
  show "map_sum id snd (decode_batch topk_by_pos [toy_model vocab6 table_tie] [toy_dec table_tie] vocab6 None 1 2 4 0
      False True (fresh_storage 4 1 2) \<lparr>size_b = 1, content = [0]\<rparr>) = Inr [''b b'']"
    by code_simp
  show "map_sum id snd (decode_batch topk_by_pos [toy_model vocab6 table_tie] [toy_dec table_tie] vocab6 None 1 2 4 0
      False False (fresh_storage 4 1 2) \<lparr>size_b = 1, content = [0]\<rparr>) = Inr [''a'']"
    by code_simp
qed

end
